theory Spec2Isabelle
  imports Main "HOL-Library.Word"
begin

section \<open>Strings of the source language\<close>

text \<open>
  A TypeScript string is a sequence of UTF-16 code units; \<open>length\<close>, the editor's
  column numbers and the regular expression all count code units.
\<close>

type_synonym jschar = "16 word"
type_synonym jsstring = "jschar list"

definition js :: "string \<Rightarrow> jsstring" where
  "js s = map of_char s"

text \<open>
  The characters \<^verbatim>\<open>\s\<close> matches and \<^verbatim>\<open>trim()\<close> strips: ECMAScript's WhiteSpace and
  LineTerminator code points (tab, LF, VT, FF, CR, space, NBSP, U+1680, U+2000..U+200A,
  U+2028, U+2029, U+202F, U+205F, U+3000, U+FEFF).
\<close>

definition isSpace :: "jschar \<Rightarrow> bool" where
  "isSpace c \<longleftrightarrow>
     c = 0x09 \<or> c = 0x0A \<or> c = 0x0B \<or> c = 0x0C \<or> c = 0x0D \<or> c = 0x20 \<or>
     c = 0xA0 \<or> c = 0x1680 \<or> (0x2000 \<le> c \<and> c \<le> 0x200A) \<or>
     c = 0x2028 \<or> c = 0x2029 \<or> c = 0x202F \<or> c = 0x205F \<or> c = 0x3000 \<or>
     c = 0xFEFF"

text \<open>\<^verbatim>\<open>\d\<close>: the ASCII digits.\<close>

definition isDigit :: "jschar \<Rightarrow> bool" where
  "isDigit c \<longleftrightarrow> 0x30 \<le> c \<and> c \<le> 0x39"

definition isHash :: "jschar \<Rightarrow> bool" where
  "isHash c \<longleftrightarrow> c = of_char CHR ''#''"

definition isBullet :: "jschar \<Rightarrow> bool" where
  "isBullet c \<longleftrightarrow> c = of_char CHR ''-'' \<or> c = of_char CHR ''*''"

definition isDot :: "jschar \<Rightarrow> bool" where
  "isDot c \<longleftrightarrow> c = of_char CHR ''.''"

text \<open>The literal space character U+0020.\<close>

definition isBlank :: "jschar \<Rightarrow> bool" where
  "isBlank c \<longleftrightarrow> c = 0x20"

text \<open>\<^verbatim>\<open>String.prototype.trim\<close>: strips white space at both ends.\<close>

definition trim :: "jsstring \<Rightarrow> jsstring" where
  "trim s = rev (dropWhile isSpace (rev (dropWhile isSpace s)))"

section \<open>Regular expressions\<close>

text \<open>
  The fragment of regular expressions the plugin uses: a character class, a greedy
  star over a character class, sequence and alternation. \<open>rxm r s\<close> lists what is left
  of \<open>s\<close> after each way \<open>r\<close> can match a prefix of it, in the order in which a
  backtracking matcher tries them (greedy star: longest first; alternation: left
  first). The first element is the match the engine reports.
\<close>

datatype rx =
    Class "jschar \<Rightarrow> bool"
  | Star "jschar \<Rightarrow> bool"
  | Seq rx rx
  | Alt rx rx

fun rxm :: "rx \<Rightarrow> jsstring \<Rightarrow> jsstring list" where
  "rxm (Class p) [] = []"
| "rxm (Class p) (c # cs) = (if p c then [cs] else [])"
| "rxm (Star p) [] = [[]]"
| "rxm (Star p) (c # cs) = (if p c then rxm (Star p) cs @ [c # cs] else [c # cs])"
| "rxm (Seq a b) s = concat (map (rxm b) (rxm a s))"
| "rxm (Alt a b) s = rxm a s @ rxm b s"

text \<open>\<^verbatim>\<open>x+\<close> is \<^verbatim>\<open>xx*\<close>.\<close>

definition Plus :: "(jschar \<Rightarrow> bool) \<Rightarrow> rx" where
  "Plus p = Seq (Class p) (Star p)"

text \<open>
  \<^verbatim>\<open>s.match(/^r/)\<close> for a pattern anchored with \<^verbatim>\<open>^\<close> and without flags: the match can
  only start at index 0; the result is \<^verbatim>\<open>null\<close> (here \<open>None\<close>) or an array whose element
  0 is the matched prefix.
\<close>

definition match0 :: "rx \<Rightarrow> jsstring \<Rightarrow> jsstring option" where
  "match0 r s =
     (case rxm r s of
        [] \<Rightarrow> None
      | rest # _ \<Rightarrow> Some (take (length s - length rest) s))"

text \<open>\<^verbatim>\<open>OUTLINER_MARKER_REGEX: /^\s*(#+\s|[-*]\s|\d+\.\s)/\<close>\<close>

definition OUTLINER_MARKER_REGEX :: rx where
  "OUTLINER_MARKER_REGEX =
     Seq (Star isSpace)
       (Alt (Seq (Plus isHash) (Class isSpace))
         (Alt (Seq (Class isBullet) (Class isSpace))
              (Seq (Plus isDigit) (Seq (Class isDot) (Class isSpace)))))"

text \<open>\<^verbatim>\<open>lineContent.match(PLUGIN_CONSTANTS.OUTLINER_MARKER_REGEX)\<close>, element 0.\<close>

definition markerMatch :: "jsstring \<Rightarrow> jsstring option" where
  "markerMatch lineContent = match0 OUTLINER_MARKER_REGEX lineContent"

text \<open>
  The marker parser as the specification words it, for comparison: the same pattern
  with a literal space after the heading, bullet or ordered-list token,
  \<^verbatim>\<open>/^\s*(#+ |[-*] |\d+\. )/\<close>.
\<close>

definition SPEC_MARKER_REGEX :: rx where
  "SPEC_MARKER_REGEX =
     Seq (Star isSpace)
       (Alt (Seq (Plus isHash) (Class isBlank))
         (Alt (Seq (Class isBullet) (Class isBlank))
              (Seq (Plus isDigit) (Seq (Class isDot) (Class isBlank)))))"

definition specMarkerMatch :: "jsstring \<Rightarrow> jsstring option" where
  "specMarkerMatch lineContent = match0 SPEC_MARKER_REGEX lineContent"

text \<open>
  Both patterns at once: the marker pattern with the class \<open>q\<close> for the character after
  the token.
\<close>

definition markerPattern :: "(jschar \<Rightarrow> bool) \<Rightarrow> rx" where
  "markerPattern q =
     Seq (Star isSpace)
       (Alt (Seq (Plus isHash) (Class q))
         (Alt (Seq (Class isBullet) (Class q))
              (Seq (Plus isDigit) (Seq (Class isDot) (Class q)))))"

text \<open>
  The shape of a marker: optional white space, then a run of \<^verbatim>\<open>#\<close>, or one of \<^verbatim>\<open>-\<close> and
  \<^verbatim>\<open>*\<close>, or a run of digits and a dot.
\<close>

definition isToken :: "jsstring \<Rightarrow> bool" where
  "isToken tok \<longleftrightarrow>
     (tok \<noteq> [] \<and> list_all isHash tok) \<or>
     (length tok = 1 \<and> list_all isBullet tok) \<or>
     (2 \<le> length tok \<and> list_all isDigit (butlast tok) \<and> isDot (last tok))"

section \<open>The host editor\<close>

text \<open>
  The part of Obsidian's \<^verbatim>\<open>Editor\<close> the commands use: the document as its lines, and
  one selection from \<open>anchor\<close> to \<open>head\<close> (an empty selection is the cursor). Positions
  are \<^verbatim>\<open>EditorPosition\<close> objects.
\<close>

record pos =
  line :: nat
  ch :: nat

record editor =
  doc :: "jsstring list"
  anchor :: pos
  head :: pos

definition posLe :: "pos \<Rightarrow> pos \<Rightarrow> bool" where
  "posLe a b \<longleftrightarrow> line a < line b \<or> (line a = line b \<and> ch a \<le> ch b)"

text \<open>\<^verbatim>\<open>getCursor()\<close> is the head of the selection, \<^verbatim>\<open>getCursor('to')\<close> its later end.\<close>

definition getCursor :: "editor \<Rightarrow> pos" where
  "getCursor e = head e"

definition getCursorTo :: "editor \<Rightarrow> pos" where
  "getCursorTo e = (if posLe (anchor e) (head e) then head e else anchor e)"

definition somethingSelected :: "editor \<Rightarrow> bool" where
  "somethingSelected e \<longleftrightarrow> anchor e \<noteq> head e"

text \<open>\<^verbatim>\<open>getLine(n)\<close>; the host raises on a line number outside the document (\<open>None\<close>).\<close>

definition getLine :: "editor \<Rightarrow> nat \<Rightarrow> jsstring option" where
  "getLine e n = (if n < length (doc e) then Some (doc e ! n) else None)"

definition setLine :: "editor \<Rightarrow> nat \<Rightarrow> jsstring \<Rightarrow> editor" where
  "setLine e n text = e\<lparr>doc := (doc e)[n := text]\<rparr>"

definition setCursor :: "editor \<Rightarrow> pos \<Rightarrow> editor" where
  "setCursor e p = e\<lparr>anchor := p, head := p\<rparr>"

definition setSelection :: "editor \<Rightarrow> pos \<Rightarrow> pos \<Rightarrow> editor" where
  "setSelection e a h = e\<lparr>anchor := a, head := h\<rparr>"

text \<open>The cursor is on a line of the document.\<close>

definition cursorInDoc :: "editor \<Rightarrow> bool" where
  "cursorInDoc e \<longleftrightarrow> line (head e) < length (doc e)"

section \<open>The editor commands\<close>

text \<open>Command \<^verbatim>\<open>empty-current-line-content-except-marker\<close>.\<close>

definition emptyCurrentLineContentExceptMarker :: "editor \<Rightarrow> editor option" where
  "emptyCurrentLineContentExceptMarker e =
     (let cursor = getCursor e;
          currentLineNumber = line cursor
      in case getLine e currentLineNumber of
           None \<Rightarrow> None
         | Some lineContent \<Rightarrow>
             (case markerMatch lineContent of
                Some marker \<Rightarrow>
                  if trim lineContent = trim marker then Some e
                  else Some (setCursor (setLine e currentLineNumber marker)
                               \<lparr>line = currentLineNumber, ch = length marker\<rparr>)
              | None \<Rightarrow>
                  Some (setCursor (setLine e currentLineNumber [])
                          \<lparr>line = currentLineNumber, ch = 0\<rparr>)))"

text \<open>Command \<^verbatim>\<open>clear-current-line-for-new-format\<close>.\<close>

definition clearCurrentLineForNewFormat :: "editor \<Rightarrow> editor" where
  "clearCurrentLineForNewFormat e =
     (let cursor = getCursor e;
          currentLineNumber = line cursor
      in setCursor (setLine e currentLineNumber []) \<lparr>line = currentLineNumber, ch = 0\<rparr>)"

text \<open>Command \<^verbatim>\<open>select-current-line-or-cancel\<close>.\<close>

definition selectCurrentLineOrCancel :: "editor \<Rightarrow> editor option" where
  "selectCurrentLineOrCancel e =
     (if somethingSelected e then Some (setCursor e (getCursorTo e))
      else
        (let cursor = getCursor e;
             currentLine = line cursor
         in case getLine e currentLine of
              None \<Rightarrow> None
            | Some lineContent \<Rightarrow>
                (let startCh = (case markerMatch lineContent of
                                  Some m \<Rightarrow> length m
                                | None \<Rightarrow> 0)
                 in Some (setSelection e \<lparr>line = currentLine, ch = startCh\<rparr>
                            \<lparr>line = currentLine, ch = length lineContent\<rparr>))))"

section \<open>Settings\<close>

text \<open>
  The persisted settings are a JSON object; \<^verbatim>\<open>loadData()\<close> resolves to \<^verbatim>\<open>null\<close> (\<open>None\<close>) when
  nothing was saved. An object is a map from its own property names to values.
\<close>

datatype jsvalue = JNull | JBool bool | JNum int | JStr string

type_synonym jsobject = "string \<rightharpoonup> jsvalue"

text \<open>\<^verbatim>\<open>DEFAULT_SETTINGS = { idleTimeoutMs: 60000 }\<close>\<close>

definition DEFAULT_SETTINGS :: jsobject where
  "DEFAULT_SETTINGS = [''idleTimeoutMs'' \<mapsto> JNum 60000]"

text \<open>
  \<^verbatim>\<open>Object.assign(target, ...sources)\<close>: copies the own properties of each source onto the
  target, in order, later sources overwriting; a \<^verbatim>\<open>null\<close> source is skipped.
\<close>

definition objectAssign :: "jsobject \<Rightarrow> jsobject option list \<Rightarrow> jsobject" where
  "objectAssign target sources =
     foldl (\<lambda>t src. case src of None \<Rightarrow> t | Some obj \<Rightarrow> t ++ obj) target sources"

text \<open>
  \<^verbatim>\<open>loadSettings\<close>: \<^verbatim>\<open>this.settings = Object.assign({}, DEFAULT_SETTINGS, await this.loadData())\<close>;
  the argument is what \<^verbatim>\<open>loadData()\<close> resolved to.
\<close>

definition loadSettings :: "jsobject option \<Rightarrow> jsobject" where
  "loadSettings loadedData = objectAssign Map.empty [Some DEFAULT_SETTINGS, loadedData]"

section \<open>The idle scheduler\<close>

text \<open>
  The plugin's fields (\<open>idleTimeout\<close>, \<open>autoCenterEnabled\<close>, \<open>settings.idleTimeoutMs\<close>) together
  with the part of the host they act on: the clock in milliseconds, the timeouts the
  plugin has pending in \<^verbatim>\<open>window\<close> (handle and due time; each calls
  \<^verbatim>\<open>scrollActiveLineToCenter\<close>), the next handle \<^verbatim>\<open>window.setTimeout\<close> will return (handles
  are positive integers, never reused), the time at which the pending call of the
  debounced handler is due (each version of \<^verbatim>\<open>onload\<close> wraps exactly one handler in
  \<^verbatim>\<open>debounce\<close>), the number of settings-tab handlers suspended at \<^verbatim>\<open>await saveSettings()\<close>, and
  whether the plugin is loaded. \<open>centered\<close> records the times at which
  \<^verbatim>\<open>scrollActiveLineToCenter\<close> has run.
\<close>

type_synonym handle = nat

record world =
  idleTimeout :: "handle option"
  autoCenterEnabled :: bool
  idleTimeoutMs :: int
  now :: nat
  timers :: "(handle \<times> nat) list"
  nextHandle :: handle
  centered :: "nat list"
  debounceDue :: "nat option"
  saving :: nat
  loaded :: bool

text \<open>
  \<^verbatim>\<open>window.setTimeout(cb, delay)\<close> takes its delay as a signed 32-bit integer: the number
  passed is reduced modulo \<open>2^32\<close> into the range from \<open>-2^31\<close> to \<open>2^31 - 1\<close>, and a negative
  result counts as 0. So a delay of \<open>2^31\<close> ms or more is not the delay the timer gets.
\<close>

definition toInt32 :: "int \<Rightarrow> int" where
  "toInt32 x = sint (word_of_int x :: 32 word)"

definition effectiveDelay :: "int \<Rightarrow> nat" where
  "effectiveDelay delay = (if toInt32 delay < 0 then 0 else nat (toInt32 delay))"

text \<open>
  \<^verbatim>\<open>window.setTimeout(cb, delay)\<close> returns a fresh handle and runs \<open>cb\<close> once, no sooner than
  the effective delay from now; \<^verbatim>\<open>window.clearTimeout(h)\<close> cancels the timeout with handle
  \<open>h\<close> if it is still pending.
\<close>

definition windowSetTimeout :: "int \<Rightarrow> world \<Rightarrow> handle \<times> world" where
  "windowSetTimeout delay w =
     (nextHandle w,
      w\<lparr>timers := timers w @ [(nextHandle w, now w + effectiveDelay delay)],
        nextHandle := nextHandle w + 1\<rparr>)"

definition windowClearTimeout :: "handle \<Rightarrow> world \<Rightarrow> world" where
  "windowClearTimeout h w = w\<lparr>timers := filter (\<lambda>(h', due). h' \<noteq> h) (timers w)\<rparr>"

text \<open>\<^verbatim>\<open>scrollActiveLineToCenter\<close>, the centering callback: its invocation is recorded.\<close>

definition scrollActiveLineToCenter :: "world \<Rightarrow> world" where
  "scrollActiveLineToCenter w = w\<lparr>centered := centered w @ [now w]\<rparr>"

text \<open>
  \<^verbatim>\<open>resetIdleTimer\<close>. The test \<^verbatim>\<open>if (this.idleTimeout)\<close> is false for \<^verbatim>\<open>null\<close> and for 0.
\<close>

definition resetIdleTimer :: "world \<Rightarrow> world" where
  "resetIdleTimer w =
     (let w1 = (case idleTimeout w of
                  None \<Rightarrow> w
                | Some h \<Rightarrow> if h \<noteq> 0 then windowClearTimeout h w else w)
      in if autoCenterEnabled w1 \<and> idleTimeoutMs w1 > 0
         then (let (h, w2) = windowSetTimeout (idleTimeoutMs w1) w1
               in w2\<lparr>idleTimeout := Some h\<rparr>)
         else w1\<lparr>idleTimeout := None\<rparr>)"

text \<open>
  \<^verbatim>\<open>resetIdleTimer\<close> of version 0.1.1, which has no settings: the delay is the constant
  \<^verbatim>\<open>IDLE_TIMEOUT_MS = 10000\<close>.
\<close>

definition resetIdleTimer_0_1_1 :: "world \<Rightarrow> world" where
  "resetIdleTimer_0_1_1 w =
     (let w1 = (case idleTimeout w of
                  None \<Rightarrow> w
                | Some h \<Rightarrow> if h \<noteq> 0 then windowClearTimeout h w else w)
      in if autoCenterEnabled w1
         then (let (h, w2) = windowSetTimeout 10000 w1
               in w2\<lparr>idleTimeout := Some h\<rparr>)
         else w1\<lparr>idleTimeout := None\<rparr>)"

text \<open>The callback of command \<^verbatim>\<open>toggle-auto-center-on-idle\<close> (the notice is not modelled).\<close>

definition toggleAutoCenter :: "world \<Rightarrow> world" where
  "toggleAutoCenter w = resetIdleTimer (w\<lparr>autoCenterEnabled := \<not> autoCenterEnabled w\<rparr>)"

text \<open>\<^verbatim>\<open>onunload\<close>.\<close>

definition onunload :: "world \<Rightarrow> world" where
  "onunload w =
     (case idleTimeout w of
        None \<Rightarrow> w
      | Some h \<Rightarrow> if h \<noteq> 0 then windowClearTimeout h w else w)"

text \<open>
  The slider's \<^verbatim>\<open>onChange\<close> handler is asynchronous: it assigns the setting, awaits
  \<^verbatim>\<open>saveSettings()\<close>, and calls \<^verbatim>\<open>resetIdleTimer()\<close> when the save has completed. Other
  callbacks of the event loop can run in between.
\<close>

definition sliderAssign :: "int \<Rightarrow> world \<Rightarrow> world" where
  "sliderAssign v w = w\<lparr>idleTimeoutMs := v, saving := saving w + 1\<rparr>"

definition sliderResume :: "world \<Rightarrow> world" where
  "sliderResume w = resetIdleTimer (w\<lparr>saving := saving w - 1\<rparr>)"

text \<open>
  A new plugin instance (\<^verbatim>\<open>idleTimeout = null\<close>, \<^verbatim>\<open>autoCenterEnabled = true\<close>) with the loaded
  setting \<open>ms\<close>, in a host whose clock shows \<open>t\<close> and whose next timeout handle is \<open>n\<close>; and
  \<^verbatim>\<open>onload\<close>, which registers the commands and event handlers and ends with
  \<^verbatim>\<open>this.resetIdleTimer()\<close>.
\<close>

definition newPlugin :: "int \<Rightarrow> nat \<Rightarrow> handle \<Rightarrow> world" where
  "newPlugin ms t n =
     \<lparr>idleTimeout = None, autoCenterEnabled = True, idleTimeoutMs = ms,
      now = t, timers = [], nextHandle = n, centered = [],
      debounceDue = None, saving = 0, loaded = False\<rparr>"

definition onload :: "world \<Rightarrow> world" where
  "onload w = resetIdleTimer (w\<lparr>loaded := True\<rparr>)"

subsection \<open>Activity signals\<close>

text \<open>
  The host's activity notifications (\<^verbatim>\<open>editor-change\<close>, \<^verbatim>\<open>active-leaf-change\<close>, \<^verbatim>\<open>keydown\<close>,
  \<^verbatim>\<open>mousedown\<close>, \<^verbatim>\<open>mousemove\<close>) and how \<^verbatim>\<open>onload\<close> subscribes \<^verbatim>\<open>resetIdleTimer\<close> to them:
  directly, or wrapped as \<^verbatim>\<open>debounce(this.resetIdleTimer, timeout, resetTimer)\<close>.
\<close>

datatype signal = EditorChange | ActiveLeafChange | KeyDown | MouseDown | MouseMove

datatype handler = Direct | Debounced nat bool

text \<open>\<^verbatim>\<open>DEBOUNCE_DELAY_MS\<close>\<close>

definition DEBOUNCE_DELAY_MS :: nat where
  "DEBOUNCE_DELAY_MS = 500"

text \<open>Version 0.1.2 (the current one) subscribes to one notification.\<close>

definition registrations :: "(signal \<times> handler) list" where
  "registrations = [(EditorChange, Debounced DEBOUNCE_DELAY_MS True)]"

text \<open>Version 0.1.1 subscribed to five.\<close>

definition registrations_0_1_1 :: "(signal \<times> handler) list" where
  "registrations_0_1_1 =
     [(EditorChange, Direct), (ActiveLeafChange, Direct), (KeyDown, Direct),
      (MouseDown, Direct), (MouseMove, Debounced DEBOUNCE_DELAY_MS True)]"

text \<open>
  Obsidian's \<^verbatim>\<open>debounce(cb, timeout, resetTimer)\<close>: a call of the debounced function does
  not run \<open>cb\<close>; it arms a timer of \<open>timeout\<close> ms if none is pending, and with
  \<open>resetTimer\<close> restarts a pending one. \<open>cb\<close> runs when that timer expires.
\<close>

definition callDebounced :: "nat \<Rightarrow> bool \<Rightarrow> world \<Rightarrow> world" where
  "callDebounced timeout resetTimer w =
     (case debounceDue w of
        None \<Rightarrow> w\<lparr>debounceDue := Some (now w + timeout)\<rparr>
      | Some due \<Rightarrow> if resetTimer then w\<lparr>debounceDue := Some (now w + timeout)\<rparr> else w)"

fun invoke :: "handler \<Rightarrow> world \<Rightarrow> world" where
  "invoke Direct w = resetIdleTimer w"
| "invoke (Debounced timeout resetTimer) w = callDebounced timeout resetTimer w"

fun dispatch :: "(signal \<times> handler) list \<Rightarrow> signal \<Rightarrow> world \<Rightarrow> world" where
  "dispatch [] sig w = w"
| "dispatch ((s, h) # regs) sig w =
     dispatch regs sig (if s = sig then invoke h w else w)"

subsection \<open>The event loop\<close>

text \<open>
  What the single-threaded host can do next: deliver an activity notification, run
  the toggle command, run the slider's handler up to its \<^verbatim>\<open>await\<close>, resume such a handler,
  unload the plugin (\<^verbatim>\<open>onunload\<close>, after which the host has detached the registered
  handlers and commands), let time pass, run a timeout that is due (once: it is no
  longer pending afterwards), or run the debounced \<^verbatim>\<open>resetIdleTimer\<close> whose delay has
  expired. \<open>None\<close>: the event cannot happen in that state.
\<close>

datatype event =
    Activity signal
  | ToggleAutoCenter
  | SliderChange int
  | SaveDone
  | Unload
  | Elapse nat
  | FireTimeout handle
  | FireDebounced

fun step :: "(signal \<times> handler) list \<Rightarrow> event \<Rightarrow> world \<Rightarrow> world option" where
  "step regs (Activity sig) w = Some (if loaded w then dispatch regs sig w else w)"
| "step regs ToggleAutoCenter w = (if loaded w then Some (toggleAutoCenter w) else None)"
| "step regs (SliderChange v) w = (if loaded w then Some (sliderAssign v w) else None)"
| "step regs SaveDone w = (if 0 < saving w then Some (sliderResume w) else None)"
| "step regs Unload w = (if loaded w then Some ((onunload w)\<lparr>loaded := False\<rparr>) else None)"
| "step regs (Elapse d) w = Some (w\<lparr>now := now w + d\<rparr>)"
| "step regs (FireTimeout h) w =
     (case map_of (timers w) h of
        None \<Rightarrow> None
      | Some due \<Rightarrow>
          if due \<le> now w
          then Some (scrollActiveLineToCenter (windowClearTimeout h w))
          else None)"
| "step regs FireDebounced w =
     (case debounceDue w of
        None \<Rightarrow> None
      | Some due \<Rightarrow>
          if due \<le> now w then Some (resetIdleTimer (w\<lparr>debounceDue := None\<rparr>)) else None)"

fun run :: "(signal \<times> handler) list \<Rightarrow> event list \<Rightarrow> world \<Rightarrow> world option" where
  "run regs [] w = Some w"
| "run regs (e # es) w = (case step regs e w of None \<Rightarrow> None | Some w' \<Rightarrow> run regs es w')"

text \<open>Events in which no plugin code other than the centering callback runs.\<close>

fun quiet :: "event \<Rightarrow> bool" where
  "quiet (Elapse d) = True"
| "quiet (FireTimeout h) = True"
| "quiet e = False"

text \<open>The time that passes in a list of events.\<close>

fun elapsed :: "event list \<Rightarrow> nat" where
  "elapsed [] = 0"
| "elapsed (Elapse d # es) = d + elapsed es"
| "elapsed (e # es) = elapsed es"

text \<open>
  A sequence of \<^verbatim>\<open>resetIdleTimer()\<close> calls: each call is followed by a list of events (the
  pause before the next call).
\<close>

fun resets :: "(signal \<times> handler) list \<Rightarrow> event list list \<Rightarrow> world \<Rightarrow> world option" where
  "resets regs [] w = Some w"
| "resets regs (qs # qss) w =
     (case run regs qs (resetIdleTimer w) of
        None \<Rightarrow> None
      | Some w' \<Rightarrow> resets regs qss w')"

text \<open>
  States the plugin can be in: handles are positive and below the next one, no handle
  is pending twice, and a pending timeout is the one \<open>idleTimeout\<close> holds.
\<close>

definition wf :: "world \<Rightarrow> bool" where
  "wf w \<longleftrightarrow>
     0 < nextHandle w \<and> distinct (map fst (timers w)) \<and>
     list_all (\<lambda>(h, due). 0 < h \<and> h < nextHandle w \<and> idleTimeout w = Some h) (timers w)"

text \<open>
  No debounced call has been pending since before time \<open>T\<close>: the clock is past \<open>T\<close>, and a
  pending debounced call was armed or re-armed at \<open>T\<close> or later.
\<close>

definition armedAfter :: "nat \<Rightarrow> world \<Rightarrow> bool" where
  "armedAfter T w \<longleftrightarrow> T \<le> now w \<and>
     (case debounceDue w of None \<Rightarrow> True | Some due \<Rightarrow> T + DEBOUNCE_DELAY_MS \<le> due)"

section \<open>Properties of the marker parser\<close>

subsection \<open>Character classes\<close>

lemma hash_not_space: "isHash c \<Longrightarrow> \<not> isSpace c"
  by (simp add: isHash_def isSpace_def)

lemma bullet_not_space: "isBullet c \<Longrightarrow> \<not> isSpace c"
  by (auto simp add: isBullet_def isSpace_def)

lemma dot_not_space: "isDot c \<Longrightarrow> \<not> isSpace c"
  by (auto simp add: isDot_def isSpace_def)

lemma digit_not_space: "isDigit c \<Longrightarrow> \<not> isSpace c"
  unfolding isDigit_def isSpace_def word_le_nat_alt
  by (auto simp add: word_le_nat_alt)

lemma dot_not_digit: "isDot c \<Longrightarrow> \<not> isDigit c"
  by (auto simp add: isDot_def isDigit_def)

lemma hash_not_bullet: "isHash c \<Longrightarrow> \<not> isBullet c"
  by (auto simp add: isHash_def isBullet_def)

lemma hash_not_digit: "isHash c \<Longrightarrow> \<not> isDigit c"
  by (auto simp add: isHash_def isDigit_def)

lemma bullet_not_digit: "isBullet c \<Longrightarrow> \<not> isDigit c"
  by (auto simp add: isBullet_def isDigit_def)


subsection \<open>The pattern commits\<close>

text \<open>
  When what follows a greedy star cannot start with a character of the star's class,
  backtracking into the star never succeeds: only the longest run matters.
\<close>

lemma rxm_star_seq:
  assumes "\<And>c cs. p c \<Longrightarrow> rxm r (c # cs) = []"
  shows "rxm (Seq (Star p) r) s = rxm r (dropWhile p s)"
  using assms by (induction s) auto

lemma rxm_plus_seq:
  assumes "\<And>c cs. p c \<Longrightarrow> rxm r (c # cs) = []"
  shows "rxm (Seq (Plus p) r) s =
           (case s of [] \<Rightarrow> [] | c # cs \<Rightarrow> if p c then rxm r (dropWhile p cs) else [])"
proof (cases s)
  case Nil
  then show ?thesis by (simp add: Plus_def)
next
  case (Cons c cs)
  have "rxm (Seq (Star p) r) cs = rxm r (dropWhile p cs)"
    using assms by (rule rxm_star_seq)
  then show ?thesis using Cons by (simp add: Plus_def)
qed

lemma rxm_marker:
  assumes "\<And>c. q c \<Longrightarrow> isSpace c"
  shows "rxm (markerPattern q) s =
     (case dropWhile isSpace s of
        [] \<Rightarrow> []
      | c # cs \<Rightarrow>
          if isHash c then rxm (Class q) (dropWhile isHash cs)
          else if isBullet c then rxm (Class q) cs
          else if isDigit c then rxm (Seq (Class isDot) (Class q)) (dropWhile isDigit cs)
          else [])"
proof -
  let ?g = "Alt (Seq (Plus isHash) (Class q))
              (Alt (Seq (Class isBullet) (Class q))
                   (Seq (Plus isDigit) (Seq (Class isDot) (Class q))))"
  have hash: "rxm (Seq (Plus isHash) (Class q)) t =
      (case t of [] \<Rightarrow> [] | c # cs \<Rightarrow>
         if isHash c then rxm (Class q) (dropWhile isHash cs) else [])" for t
    by (rule rxm_plus_seq) (use assms hash_not_space in auto)
  have digit: "rxm (Seq (Plus isDigit) (Seq (Class isDot) (Class q))) t =
      (case t of [] \<Rightarrow> [] | c # cs \<Rightarrow>
         if isDigit c then rxm (Seq (Class isDot) (Class q)) (dropWhile isDigit cs)
         else [])" for t
    by (rule rxm_plus_seq) (auto dest: dot_not_digit)
  have bullet: "rxm (Seq (Class isBullet) (Class q)) t =
      (case t of [] \<Rightarrow> [] | c # cs \<Rightarrow> if isBullet c then rxm (Class q) cs else [])" for t
    by (cases t) simp_all
  have g: "rxm ?g t =
      (case t of [] \<Rightarrow> [] | c # cs \<Rightarrow>
          if isHash c then rxm (Class q) (dropWhile isHash cs)
          else if isBullet c then rxm (Class q) cs
          else if isDigit c then rxm (Seq (Class isDot) (Class q)) (dropWhile isDigit cs)
          else [])" for t
    unfolding rxm.simps(6) hash digit bullet
    by (cases t) (auto dest: hash_not_bullet hash_not_digit bullet_not_digit)
  have reject: "rxm ?g (c # cs) = []" if "isSpace c" for c cs
    unfolding g using that
    by (auto dest: hash_not_space bullet_not_space digit_not_space)
  have "rxm (Seq (Star isSpace) ?g) s = rxm ?g (dropWhile isSpace s)"
    using reject by (rule rxm_star_seq)
  then show ?thesis
    unfolding markerPattern_def g .
qed

lemma class_rest: "rxm (Class p) t = r # rs \<Longrightarrow> \<exists>d. t = d # r \<and> p d \<and> rs = []"
  by (cases t) (auto split: if_splits)

lemma take_prefix_len: "take (length (a @ b @ r) - length r) (a @ b @ r) = a @ b"
  by simp

lemma pattern_decompose:
  assumes q: "\<And>c. q c \<Longrightarrow> isSpace c"
    and "match0 (markerPattern q) s = Some m"
  shows "\<exists>ws tok c rest. s = ws @ tok @ c # rest \<and> list_all isSpace ws \<and> isToken tok \<and>
            q c \<and> m = ws @ tok @ [c]"
proof -
  define ws where "ws = takeWhile isSpace s"
  define t where "t = dropWhile isSpace s"
  have s: "s = ws @ t" by (simp add: ws_def t_def)
  have ws: "list_all isSpace ws"
    unfolding ws_def list_all_iff by (auto dest: set_takeWhileD)
  from assms(2) obtain r rs where r: "rxm (markerPattern q) s = r # rs"
    and m: "m = take (length s - length r) s"
    by (auto simp: match0_def split: list.splits)
  have rt: "rxm (markerPattern q) s =
     (case t of
        [] \<Rightarrow> []
      | c # cs \<Rightarrow>
          if isHash c then rxm (Class q) (dropWhile isHash cs)
          else if isBullet c then rxm (Class q) cs
          else if isDigit c then rxm (Seq (Class isDot) (Class q)) (dropWhile isDigit cs)
          else [])"
    unfolding t_def using q by (rule rxm_marker)
  from r rt obtain c cs where t: "t = c # cs"
    by (cases t) auto
  have key: "\<exists>tok d. t = tok @ d # r \<and> isToken tok \<and> q d"
  proof -
    consider (h) "isHash c" | (b) "\<not> isHash c" "isBullet c"
      | (d) "\<not> isHash c" "\<not> isBullet c" "isDigit c"
      using r rt t by (auto split: if_splits)
    then show ?thesis
    proof cases
      case h
      with r t have "rxm (Class q) (dropWhile isHash cs) = r # rs"
        using rt by simp
      then obtain d where d: "dropWhile isHash cs = d # r" "q d"
        using class_rest by blast
      have "cs = takeWhile isHash cs @ d # r"
        using d(1) takeWhile_dropWhile_id[of isHash cs] by simp
      moreover have "isToken (c # takeWhile isHash cs)"
        using h by (auto simp: isToken_def list_all_iff dest: set_takeWhileD)
      ultimately show ?thesis using t d(2)
        by (intro exI[of _ "c # takeWhile isHash cs"] exI[of _ d]) simp
    next
      case b
      with r t have "rxm (Class q) cs = r # rs"
        using rt by simp
      then obtain d where d: "cs = d # r" "q d"
        using class_rest by blast
      have "isToken [c]" using b by (simp add: isToken_def)
      then show ?thesis using t d
        by (intro exI[of _ "[c]"] exI[of _ d]) simp
    next
      case d
      with r t have "rxm (Seq (Class isDot) (Class q)) (dropWhile isDigit cs) = r # rs"
        using rt by simp
      then obtain x e where x: "dropWhile isDigit cs = x # e # r" "isDot x" "q e"
        by (cases "dropWhile isDigit cs"; cases "tl (dropWhile isDigit cs)")
           (auto split: if_splits)
      have cs: "cs = takeWhile isDigit cs @ x # e # r"
        using x(1) takeWhile_dropWhile_id[of isDigit cs] by simp
      have "isToken ((c # takeWhile isDigit cs) @ [x])"
        unfolding isToken_def using d x(2)
        by (auto simp: list_all_iff butlast_append dest: set_takeWhileD)
      moreover have "t = ((c # takeWhile isDigit cs) @ [x]) @ e # r"
        using t cs by simp
      ultimately show ?thesis using x(3) by blast
    qed
  qed
  then obtain tok d where td: "t = tok @ d # r" "isToken tok" "q d" by blast
  have "m = ws @ tok @ [d]"
    unfolding m s td(1) by simp
  with s td ws show ?thesis by blast
qed

lemma token_head: "isToken tok \<Longrightarrow> \<exists>c cs. tok = c # cs \<and> \<not> isSpace c"
  apply (cases tok)
   apply (simp add: isToken_def)
  apply (auto simp: isToken_def dest: hash_not_space bullet_not_space digit_not_space)
  subgoal for a list by (cases list) (auto dest: digit_not_space)
  done

lemma dropWhile_all: "list_all p xs \<Longrightarrow> \<not> p y \<Longrightarrow> dropWhile p (xs @ y # ys) = y # ys"
  by (induction xs) auto

lemma pattern_compose:
  assumes "list_all isSpace ws" "isToken tok" "q c"
    and q: "\<And>c. q c \<Longrightarrow> isSpace c"
  shows "match0 (markerPattern q) (ws @ tok @ c # rest) = Some (ws @ tok @ [c])"
proof -
  from token_head[OF assms(2)] obtain a as where tok: "tok = a # as" "\<not> isSpace a" by blast
  have dw: "dropWhile isSpace (ws @ tok @ c # rest) = a # as @ c # rest"
    using dropWhile_all[OF assms(1) tok(2)] tok(1) by simp
  have g: "rxm (markerPattern q) (ws @ tok @ c # rest) =
     (if isHash a then rxm (Class q) (dropWhile isHash (as @ c # rest))
      else if isBullet a then rxm (Class q) (as @ c # rest)
      else if isDigit a
        then rxm (Seq (Class isDot) (Class q)) (dropWhile isDigit (as @ c # rest))
      else [])"
  proof -
    have "rxm (markerPattern q) (ws @ tok @ c # rest) =
      (case dropWhile isSpace (ws @ tok @ c # rest) of
        [] \<Rightarrow> []
      | c # cs \<Rightarrow>
          if isHash c then rxm (Class q) (dropWhile isHash cs)
          else if isBullet c then rxm (Class q) cs
          else if isDigit c then rxm (Seq (Class isDot) (Class q)) (dropWhile isDigit cs)
          else [])"
      using q by (rule rxm_marker)
    then show ?thesis unfolding dw by simp
  qed
  have "rxm (markerPattern q) (ws @ tok @ c # rest) = [rest]"
  proof -
    consider (h) "list_all isHash tok"
      | (b) "length tok = 1" "list_all isBullet tok"
      | (d) "2 \<le> length tok" "list_all isDigit (butlast tok)" "isDot (last tok)"
      using assms(2) by (auto simp: isToken_def)
    then show ?thesis
    proof cases
      case h
      have "\<not> isHash c" using assms(3) q hash_not_space by blast
      with h tok have "dropWhile isHash (as @ c # rest) = c # rest"
        by (simp add: dropWhile_all)
      with h tok assms(3) show ?thesis unfolding g by simp
    next
      case b
      with tok have "as = []" "isBullet a" by auto
      with assms(3) show ?thesis
        unfolding g by (auto dest: hash_not_bullet)
    next
      case d
      with tok obtain ds where ds: "as = ds @ [last tok]" "list_all isDigit ds" "isDigit a"
        by (cases as rule: rev_cases) (auto simp: butlast_append)
      have "dropWhile isDigit (ds @ last tok # c # rest) = last tok # c # rest"
        using ds(2) d(3) by (simp add: dropWhile_all dot_not_digit)
      with ds d(3) assms(3) show ?thesis
        unfolding g by (auto dest: hash_not_digit bullet_not_digit)
    qed
  qed
  then show ?thesis
    by (simp add: match0_def)
qed

lemma outliner_pattern: "OUTLINER_MARKER_REGEX = markerPattern isSpace"
  by (simp add: OUTLINER_MARKER_REGEX_def markerPattern_def)

lemma spec_pattern: "SPEC_MARKER_REGEX = markerPattern isBlank"
  by (simp add: SPEC_MARKER_REGEX_def markerPattern_def)

lemma blank_space: "isBlank c \<Longrightarrow> isSpace c"
  by (simp add: isBlank_def isSpace_def)

lemma markerMatch_decompose:
  assumes "markerMatch s = Some m"
  shows "\<exists>ws tok c rest. s = ws @ tok @ c # rest \<and> list_all isSpace ws \<and> isToken tok \<and>
            isSpace c \<and> m = ws @ tok @ [c]"
  using pattern_decompose[of isSpace s m] assms
  by (simp add: markerMatch_def outliner_pattern)

lemma markerMatch_compose:
  assumes "list_all isSpace ws" "isToken tok" "isSpace c"
  shows "markerMatch (ws @ tok @ c # rest) = Some (ws @ tok @ [c])"
  using pattern_compose[of ws tok isSpace c rest] assms
  by (simp add: markerMatch_def outliner_pattern)

lemma specMarkerMatch_decompose:
  assumes "specMarkerMatch s = Some m"
  shows "\<exists>ws tok c rest. s = ws @ tok @ c # rest \<and> list_all isSpace ws \<and> isToken tok \<and>
            isBlank c \<and> m = ws @ tok @ [c]"
  using pattern_decompose[of isBlank s m] assms blank_space
  by (simp add: specMarkerMatch_def spec_pattern)

lemma specMarkerMatch_compose:
  assumes "list_all isSpace ws" "isToken tok" "isBlank c"
  shows "specMarkerMatch (ws @ tok @ c # rest) = Some (ws @ tok @ [c])"
  using pattern_compose[of ws tok isBlank c rest] assms blank_space
  by (simp add: specMarkerMatch_def spec_pattern)

lemma specMarkerMatch_iff:
  "specMarkerMatch s = Some m \<longleftrightarrow> markerMatch s = Some m \<and> isBlank (last m)"
proof
  assume "specMarkerMatch s = Some m"
  from specMarkerMatch_decompose[OF this] obtain ws tok c rest where
    d: "s = ws @ tok @ c # rest" "list_all isSpace ws" "isToken tok" "isBlank c"
      "m = ws @ tok @ [c]" by blast
  from markerMatch_compose[OF d(2,3) blank_space[OF d(4)], of rest] d
  show "markerMatch s = Some m \<and> isBlank (last m)" by simp
next
  assume a: "markerMatch s = Some m \<and> isBlank (last m)"
  then obtain ws tok c rest where
    d: "s = ws @ tok @ c # rest" "list_all isSpace ws" "isToken tok"
      "m = ws @ tok @ [c]" using markerMatch_decompose by blast
  from a d(4) have "isBlank c" by simp
  from specMarkerMatch_compose[OF d(2,3) this, of rest] d
  show "specMarkerMatch s = Some m" by simp
qed





subsection \<open>Evaluation on concrete lines\<close>

lemmas eval_defs = markerMatch_def specMarkerMatch_def match0_def OUTLINER_MARKER_REGEX_def
  SPEC_MARKER_REGEX_def Plus_def isSpace_def isDigit_def isHash_def isBullet_def isDot_def
  isBlank_def js_def trim_def

lemma markerMatch_heading: "markerMatch (js ''# Title'') = Some (js ''# '')"
  by (simp add: eval_defs)
lemma markerMatch_bullet: "markerMatch (js ''- item'') = Some (js ''- '')"
  by (simp add: eval_defs)
lemma markerMatch_ordered: "markerMatch (js ''3. item'') = Some (js ''3. '')"
  by (simp add: eval_defs)
lemma markerMatch_plain: "markerMatch (js ''plain text'') = None"
  by (simp add: eval_defs)
lemma markerMatch_blank: "markerMatch (js ''   '') = None"
  by (simp add: eval_defs)
lemma markerMatch_marker_only: "markerMatch (js ''# '') = Some (js ''# '')"
  by (simp add: eval_defs)
lemma markerMatch_indented: "markerMatch (js ''  12. x'') = Some (js ''  12. '')"
  by (simp add: eval_defs)


text \<open>
  C4 (as amended). The marker parser returns a match exactly when the line is optional
  leading white space, then a run of one or more \<^verbatim>\<open>#\<close>, or one \<^verbatim>\<open>-\<close> or \<^verbatim>\<open>*\<close>, or one or more
  digits and a dot, then one white-space character (any character \<^verbatim>\<open>\s\<close> matches: a
  space, but also a tab, a no-break space, ...), then anything. The match is that
  prefix, leading white space included. The parser is a total function of the line.
  It agrees with the pattern that asks for a space after the token exactly on the
  matches that end in a space.
\<close>

theorem markerMatch_characterisation:
  "(markerMatch s = Some m \<longleftrightarrow>
      (\<exists>ws tok c rest. s = ws @ tok @ c # rest \<and> list_all isSpace ws \<and> isToken tok \<and>
         isSpace c \<and> m = ws @ tok @ [c]))
   \<and> (markerMatch s = None \<longleftrightarrow>
      \<not> (\<exists>ws tok c rest. s = ws @ tok @ c # rest \<and> list_all isSpace ws \<and> isToken tok \<and>
         isSpace c))
   \<and> (specMarkerMatch s = Some m \<longleftrightarrow> markerMatch s = Some m \<and> isBlank (last m))"
proof (intro conjI)
  have 1: "markerMatch s = Some m \<longleftrightarrow>
      (\<exists>ws tok c rest. s = ws @ tok @ c # rest \<and> list_all isSpace ws \<and> isToken tok \<and>
         isSpace c \<and> m = ws @ tok @ [c])" for m
    using markerMatch_decompose markerMatch_compose by blast
  show "markerMatch s = Some m \<longleftrightarrow>
      (\<exists>ws tok c rest. s = ws @ tok @ c # rest \<and> list_all isSpace ws \<and> isToken tok \<and>
         isSpace c \<and> m = ws @ tok @ [c])"
    by (rule 1)
  have "markerMatch s = None \<longleftrightarrow> (\<forall>m. markerMatch s \<noteq> Some m)" by auto
  also have "\<dots> \<longleftrightarrow> \<not> (\<exists>ws tok c rest. s = ws @ tok @ c # rest \<and> list_all isSpace ws \<and>
      isToken tok \<and> isSpace c)"
    unfolding 1 by blast
  finally show "markerMatch s = None \<longleftrightarrow>
      \<not> (\<exists>ws tok c rest. s = ws @ tok @ c # rest \<and> list_all isSpace ws \<and> isToken tok \<and>
         isSpace c)" .
  show "specMarkerMatch s = Some m \<longleftrightarrow> markerMatch s = Some m \<and> isBlank (last m)"
    by (rule specMarkerMatch_iff)
qed

text \<open>
  The line \<^verbatim>\<open>#<TAB>x\<close>: the parser finds the marker \<^verbatim>\<open>#<TAB>\<close>, although the \<^verbatim>\<open>#\<close> is not
  followed by a space; the pattern with a literal space finds none.
\<close>

theorem markerMatch_tab_counterexample:
  "markerMatch (js ''#'' @ [0x09] @ js ''x'') = Some (js ''#'' @ [0x09])
   \<and> specMarkerMatch (js ''#'' @ [0x09] @ js ''x'') = None"
  by (simp add: eval_defs)

subsection \<open>Trimming a marker\<close>


lemma token_last: "isToken tok \<Longrightarrow> \<not> isSpace (last tok)"
  unfolding isToken_def
  by (cases tok rule: rev_cases)
     (auto dest: hash_not_space bullet_not_space dot_not_space)

lemma trim_core:
  assumes "list_all isSpace a" "list_all isSpace b" "t \<noteq> []" "\<not> isSpace (hd t)"
    "\<not> isSpace (last t)"
  shows "trim (a @ t @ b) = t"
proof -
  from assms(3,4) obtain x xs where t: "t = x # xs" "\<not> isSpace x" by (cases t) auto
  from assms(3,5) obtain ys y where t': "t = ys @ [y]" "\<not> isSpace y"
    by (cases t rule: rev_cases) auto
  have 1: "dropWhile isSpace (a @ t @ b) = t @ b"
    using dropWhile_all[OF assms(1) t(2)] t(1) by simp
  have "rev (t @ b) = rev b @ y # rev ys" using t' by simp
  moreover have "list_all isSpace (rev b)" using assms(2) by (simp add: list_all_iff)
  ultimately have "dropWhile isSpace (rev (t @ b)) = y # rev ys"
    using dropWhile_all t'(2) by metis
  then show ?thesis unfolding trim_def 1 using t' by simp
qed

lemma marker_trailing_space:
  assumes "markerMatch l0 = Some m" "list_all isSpace ws"
  shows "markerMatch (m @ ws) = Some m \<and> trim (m @ ws) = trim m"
proof -
  from markerMatch_decompose[OF assms(1)] obtain w tok c rest where
    d: "list_all isSpace w" "isToken tok" "isSpace c" "m = w @ tok @ [c]" by blast
  have "markerMatch (w @ tok @ c # ws) = Some (w @ tok @ [c])"
    using d(1-3) by (rule markerMatch_compose)
  then have 1: "markerMatch (m @ ws) = Some m" using d(4) by simp
  from token_head[OF d(2)] token_last[OF d(2)]
  have tk: "tok \<noteq> []" "\<not> isSpace (hd tok)" "\<not> isSpace (last tok)" by auto
  have "trim (w @ tok @ (c # ws)) = tok"
    using d(1) assms(2) d(3) tk by (intro trim_core) simp_all
  moreover have "trim (w @ tok @ [c]) = tok"
    using d(1) d(3) tk by (intro trim_core) simp_all
  ultimately have "trim (m @ ws) = trim m" using d(4) by simp
  with 1 show ?thesis by simp
qed

section \<open>Properties of the editor commands\<close>

lemmas editor_defs = getCursor_def getCursorTo_def somethingSelected_def getLine_def
  setLine_def setCursor_def setSelection_def cursorInDoc_def posLe_def

text \<open>
  C5 (as amended). With the cursor on line \<open>n\<close> with text \<open>l\<close>, the command
  \<^emph>\<open>Empty current line content except marker\<close> does this: if a marker \<open>m\<close> is found and the
  trimmed line differs from the trimmed marker, line \<open>n\<close> becomes exactly \<open>m\<close> and the
  cursor goes to column \<open>length m\<close>; if a marker is found and the trimmed line equals
  the trimmed marker (in particular if the line is exactly the marker), nothing
  changes, neither text nor cursor; if no marker is found, line \<open>n\<close> becomes the empty
  string and the cursor goes to column 0.
\<close>

theorem empty_except_marker_cases:
  assumes "cursorInDoc e"
    and "n = line (getCursor e)"
    and "getLine e n = Some l"
  shows "(\<forall>m. markerMatch l = Some m \<and> trim l \<noteq> trim m \<longrightarrow>
            emptyCurrentLineContentExceptMarker e =
              Some (e\<lparr>doc := (doc e)[n := m],
                       anchor := \<lparr>line = n, ch = length m\<rparr>,
                       head := \<lparr>line = n, ch = length m\<rparr>\<rparr>))
       \<and> (\<forall>m. markerMatch l = Some m \<and> trim l = trim m \<longrightarrow>
            emptyCurrentLineContentExceptMarker e = Some e)
       \<and> (markerMatch l = Some l \<longrightarrow> emptyCurrentLineContentExceptMarker e = Some e)
       \<and> (markerMatch l = None \<longrightarrow>
            emptyCurrentLineContentExceptMarker e =
              Some (e\<lparr>doc := (doc e)[n := []],
                       anchor := \<lparr>line = n, ch = 0\<rparr>,
                       head := \<lparr>line = n, ch = 0\<rparr>\<rparr>))"
  using assms
  by (auto simp: emptyCurrentLineContentExceptMarker_def Let_def setLine_def setCursor_def)

theorem empty_except_marker_cases_witness:
  "emptyCurrentLineContentExceptMarker
     \<lparr>doc = [js ''- done''], anchor = \<lparr>line = 0, ch = 4\<rparr>, head = \<lparr>line = 0, ch = 4\<rparr>\<rparr> =
     Some \<lparr>doc = [js ''- ''], anchor = \<lparr>line = 0, ch = 2\<rparr>, head = \<lparr>line = 0, ch = 2\<rparr>\<rparr>
   \<and> emptyCurrentLineContentExceptMarker
     \<lparr>doc = [js ''- ''], anchor = \<lparr>line = 0, ch = 1\<rparr>, head = \<lparr>line = 0, ch = 1\<rparr>\<rparr> =
     Some \<lparr>doc = [js ''- ''], anchor = \<lparr>line = 0, ch = 1\<rparr>, head = \<lparr>line = 0, ch = 1\<rparr>\<rparr>
   \<and> emptyCurrentLineContentExceptMarker
     \<lparr>doc = [js ''plain''], anchor = \<lparr>line = 0, ch = 3\<rparr>, head = \<lparr>line = 0, ch = 3\<rparr>\<rparr> =
     Some \<lparr>doc = [[]], anchor = \<lparr>line = 0, ch = 0\<rparr>, head = \<lparr>line = 0, ch = 0\<rparr>\<rparr>"
proof -
  let ?e1 = "\<lparr>doc = [js ''- done''], anchor = \<lparr>line = 0, ch = 4\<rparr>, head = \<lparr>line = 0, ch = 4\<rparr>\<rparr>"
  let ?e2 = "\<lparr>doc = [js ''- ''], anchor = \<lparr>line = 0, ch = 1\<rparr>, head = \<lparr>line = 0, ch = 1\<rparr>\<rparr>"
  let ?e3 = "\<lparr>doc = [js ''plain''], anchor = \<lparr>line = 0, ch = 3\<rparr>, head = \<lparr>line = 0, ch = 3\<rparr>\<rparr>"
  have m1: "markerMatch (js ''- done'') = Some (js ''- '')" by (simp add: eval_defs)
  have t1: "trim (js ''- done'') \<noteq> trim (js ''- '')" by (simp add: eval_defs)
  have m2: "markerMatch (js ''- '') = Some (js ''- '')" by (simp add: eval_defs)
  have m3: "markerMatch (js ''plain'') = None" by (simp add: eval_defs)
  have 1: "emptyCurrentLineContentExceptMarker ?e1 =
      Some \<lparr>doc = [js ''- ''], anchor = \<lparr>line = 0, ch = 2\<rparr>, head = \<lparr>line = 0, ch = 2\<rparr>\<rparr>"
    using empty_except_marker_cases[of ?e1 0 "js ''- done''"] m1 t1
    by (simp add: editor_defs) (simp add: js_def)
  have 2: "emptyCurrentLineContentExceptMarker ?e2 = Some ?e2"
    using empty_except_marker_cases[of ?e2 0 "js ''- ''"] m2
    by (simp add: editor_defs)
  have 3: "emptyCurrentLineContentExceptMarker ?e3 =
     Some \<lparr>doc = [[]], anchor = \<lparr>line = 0, ch = 0\<rparr>, head = \<lparr>line = 0, ch = 0\<rparr>\<rparr>"
    using empty_except_marker_cases[of ?e3 0 "js ''plain''"] m3
    by (simp add: editor_defs)
  from 1 2 3 show ?thesis by simp
qed

text \<open>
  The line \<^verbatim>\<open>"-  "\<close> (marker \<^verbatim>\<open>"- "\<close> and one more space) is not the marker, and yet the
  command leaves it as it is: "a marker is found and the line is not the marker" does
  not imply that the line becomes the marker.
\<close>

theorem empty_except_marker_not_exact_counterexample:
  "\<not> (\<forall>e l m. cursorInDoc e \<and> getLine e (line (getCursor e)) = Some l \<and>
         markerMatch l = Some m \<and> l \<noteq> m \<longrightarrow>
         (\<exists>e'. emptyCurrentLineContentExceptMarker e = Some e' \<and>
               getLine e' (line (getCursor e)) = Some m \<and>
               ch (getCursor e') = length m))"
proof
  let ?e = "\<lparr>doc = [js ''-  ''], anchor = \<lparr>line = 0, ch = 0\<rparr>, head = \<lparr>line = 0, ch = 0\<rparr>\<rparr>"
  assume a: "\<forall>e l m. cursorInDoc e \<and> getLine e (line (getCursor e)) = Some l \<and>
         markerMatch l = Some m \<and> l \<noteq> m \<longrightarrow>
         (\<exists>e'. emptyCurrentLineContentExceptMarker e = Some e' \<and>
               getLine e' (line (getCursor e)) = Some m \<and>
               ch (getCursor e') = length m)"
  have m: "markerMatch (js ''-  '') = Some (js ''- '')" by (simp add: eval_defs)
  have t: "trim (js ''-  '') = trim (js ''- '')" by (simp add: eval_defs)
  have ne: "js ''-  '' \<noteq> js ''- ''" by (simp add: js_def)
  have c: "emptyCurrentLineContentExceptMarker ?e = Some ?e"
    using m t by (simp add: emptyCurrentLineContentExceptMarker_def editor_defs)
  have "cursorInDoc ?e \<and> getLine ?e (line (getCursor ?e)) = Some (js ''-  '')"
    by (simp add: editor_defs)
  with a m ne obtain e' where "emptyCurrentLineContentExceptMarker ?e = Some e'"
     "getLine e' (line (getCursor ?e)) = Some (js ''- '')" "ch (getCursor e') = length (js ''- '')"
    by blast
  with c have "getLine ?e (line (getCursor ?e)) = Some (js ''- '')" by simp
  then show False by (simp add: editor_defs js_def)
qed

text \<open>
  C10. The no-op case of \<^emph>\<open>Empty current line content except marker\<close> compares the
  trimmed line with the trimmed marker: whenever they are equal the command changes
  neither the text nor the cursor. That is so for every line that is a marker followed
  by white space only, such as \<^verbatim>\<open>"-  "\<close>, although such a line is not the marker itself.
\<close>

theorem empty_except_marker_trim_noop:
  assumes "cursorInDoc e"
    and "getLine e (line (getCursor e)) = Some l"
  shows "(\<forall>m. markerMatch l = Some m \<and> trim l = trim m \<longrightarrow>
            emptyCurrentLineContentExceptMarker e = Some e)
       \<and> (\<forall>l0 m ws. markerMatch l0 = Some m \<and> list_all isSpace ws \<and> l = m @ ws \<longrightarrow>
            markerMatch l = Some m \<and> emptyCurrentLineContentExceptMarker e = Some e)"
proof -
  have 1: "emptyCurrentLineContentExceptMarker e = Some e"
    if "markerMatch l = Some m" "trim l = trim m" for m
    using assms that by (simp add: emptyCurrentLineContentExceptMarker_def)
  have 2: "markerMatch l = Some m \<and> emptyCurrentLineContentExceptMarker e = Some e"
    if "markerMatch l0 = Some m" "list_all isSpace ws" "l = m @ ws" for l0 m ws
    using marker_trailing_space[OF that(1,2)] 1[of m] that(3) by simp
  from 1 2 show ?thesis by blast
qed

theorem empty_except_marker_trim_noop_witness:
  "emptyCurrentLineContentExceptMarker
     \<lparr>doc = [js ''-  ''], anchor = \<lparr>line = 0, ch = 3\<rparr>, head = \<lparr>line = 0, ch = 3\<rparr>\<rparr> =
     Some \<lparr>doc = [js ''-  ''], anchor = \<lparr>line = 0, ch = 3\<rparr>, head = \<lparr>line = 0, ch = 3\<rparr>\<rparr>
   \<and> markerMatch (js ''-  '') = Some (js ''- '') \<and> js ''-  '' \<noteq> js ''- ''"
proof -
  let ?e = "\<lparr>doc = [js ''-  ''], anchor = \<lparr>line = 0, ch = 3\<rparr>, head = \<lparr>line = 0, ch = 3\<rparr>\<rparr>"
  have m: "markerMatch (js ''- '') = Some (js ''- '')" by (simp add: eval_defs)
  have s: "list_all isSpace [0x20]" by (simp add: isSpace_def)
  have l: "js ''-  '' = js ''- '' @ [0x20]" by (simp add: js_def)
  have c: "cursorInDoc ?e \<and> getLine ?e (line (getCursor ?e)) = Some (js ''-  '')"
    by (simp add: editor_defs)
  from empty_except_marker_trim_noop[of ?e "js ''-  ''"] c m s l
  have "markerMatch (js ''-  '') = Some (js ''- '') \<and>
     emptyCurrentLineContentExceptMarker ?e = Some ?e" by blast
  then show ?thesis by (simp add: js_def)
qed

text \<open>
  C6. \<^emph>\<open>Select line / Cancel selection\<close>: with a selection active, the cursor moves to
  the selection's end point (the later of anchor and head) and nothing is selected;
  otherwise the selection goes from just after the marker (column 0 without a marker)
  to the end of the current line's text. On \<^verbatim>\<open>"- hello"\<close>: column 2 to column 7.
\<close>

theorem select_or_cancel_cases:
  "(somethingSelected e \<longrightarrow>
      selectCurrentLineOrCancel e =
        Some (e\<lparr>anchor := getCursorTo e, head := getCursorTo e\<rparr>)
      \<and> posLe (anchor e) (getCursorTo e) \<and> posLe (head e) (getCursorTo e)
      \<and> (getCursorTo e = anchor e \<or> getCursorTo e = head e))
   \<and> (\<not> somethingSelected e \<and> cursorInDoc e \<longrightarrow>
      selectCurrentLineOrCancel e =
        Some (e\<lparr>anchor := \<lparr>line = line (getCursor e),
                            ch = (case markerMatch (doc e ! line (getCursor e)) of
                                    Some m \<Rightarrow> length m | None \<Rightarrow> 0)\<rparr>,
                 head := \<lparr>line = line (getCursor e),
                          ch = length (doc e ! line (getCursor e))\<rparr>\<rparr>))"
  by (auto simp: selectCurrentLineOrCancel_def Let_def editor_defs)

theorem select_or_cancel_cases_witness:
  "selectCurrentLineOrCancel
     \<lparr>doc = [js ''- hello''], anchor = \<lparr>line = 0, ch = 4\<rparr>, head = \<lparr>line = 0, ch = 4\<rparr>\<rparr> =
     Some \<lparr>doc = [js ''- hello''], anchor = \<lparr>line = 0, ch = 2\<rparr>, head = \<lparr>line = 0, ch = 7\<rparr>\<rparr>
   \<and> selectCurrentLineOrCancel
     \<lparr>doc = [js ''- hello''], anchor = \<lparr>line = 0, ch = 2\<rparr>, head = \<lparr>line = 0, ch = 7\<rparr>\<rparr> =
     Some \<lparr>doc = [js ''- hello''], anchor = \<lparr>line = 0, ch = 7\<rparr>, head = \<lparr>line = 0, ch = 7\<rparr>\<rparr>"
proof -
  let ?e1 = "\<lparr>doc = [js ''- hello''], anchor = \<lparr>line = 0, ch = 4\<rparr>, head = \<lparr>line = 0, ch = 4\<rparr>\<rparr>"
  let ?e2 = "\<lparr>doc = [js ''- hello''], anchor = \<lparr>line = 0, ch = 2\<rparr>, head = \<lparr>line = 0, ch = 7\<rparr>\<rparr>"
  have m: "markerMatch (js ''- hello'') = Some (js ''- '')" by (simp add: eval_defs)
  have 1: "selectCurrentLineOrCancel ?e1 = Some ?e2"
    using select_or_cancel_cases[of ?e1] m by (simp add: editor_defs) (simp add: js_def)
  have 2: "selectCurrentLineOrCancel ?e2 =
     Some \<lparr>doc = [js ''- hello''], anchor = \<lparr>line = 0, ch = 7\<rparr>, head = \<lparr>line = 0, ch = 7\<rparr>\<rparr>"
    using select_or_cancel_cases[of ?e2] by (simp add: editor_defs)
  from 1 2 show ?thesis by simp
qed

section \<open>Properties of the idle scheduler\<close>

subsection \<open>The invariant\<close>

lemma wf_timers:
  assumes "wf w"
  shows "timers w = [] \<or>
     (\<exists>h due. timers w = [(h, due)] \<and> idleTimeout w = Some h \<and> 0 < h \<and> h < nextHandle w)"
proof (cases "timers w")
  case Nil
  then show ?thesis by simp
next
  case (Cons a ts)
  obtain h due where a: "a = (h, due)" by (cases a)
  have ha: "idleTimeout w = Some h" "0 < h" "h < nextHandle w"
    using assms Cons a by (auto simp: wf_def)
  have "ts = []"
  proof (cases ts)
    case Nil
    then show ?thesis .
  next
    case (Cons b us)
    obtain h' due' where b: "b = (h', due')" by (cases b)
    have "idleTimeout w = Some h'" using assms \<open>timers w = a # ts\<close> Cons b by (auto simp: wf_def)
    with ha have "h' = h" by simp
    moreover have "h' \<noteq> h" using assms \<open>timers w = a # ts\<close> Cons a b by (auto simp: wf_def)
    ultimately show ?thesis by simp
  qed
  with Cons a ha show ?thesis by simp
qed

lemma wf_length: "wf w \<Longrightarrow> length (timers w) \<le> 1"
  using wf_timers[of w] by auto

lemma wf_cleared:
  assumes "wf w"
  shows "(case idleTimeout w of
            None \<Rightarrow> w
          | Some h \<Rightarrow> if h \<noteq> 0 then windowClearTimeout h w else w) = w\<lparr>timers := []\<rparr>"
  using wf_timers[OF assms]
  by (auto simp: windowClearTimeout_def split: option.splits)

lemma resetIdleTimer_wf:
  assumes "wf w"
  shows "resetIdleTimer w =
     (if autoCenterEnabled w \<and> 0 < idleTimeoutMs w
      then w\<lparr>timers := [(nextHandle w, now w + effectiveDelay (idleTimeoutMs w))],
             nextHandle := nextHandle w + 1,
             idleTimeout := Some (nextHandle w)\<rparr>
      else w\<lparr>timers := [], idleTimeout := None\<rparr>)"
  unfolding resetIdleTimer_def wf_cleared[OF assms]
  by (simp add: windowSetTimeout_def Let_def)

lemma onunload_wf: "wf w \<Longrightarrow> onunload w = w\<lparr>timers := []\<rparr>"
  unfolding onunload_def by (rule wf_cleared)

lemma wf_upd [simp]:
  "wf (w\<lparr>autoCenterEnabled := b\<rparr>) = wf w"
  "wf (w\<lparr>idleTimeoutMs := v\<rparr>) = wf w"
  "wf (w\<lparr>now := t\<rparr>) = wf w"
  "wf (w\<lparr>centered := cs\<rparr>) = wf w"
  "wf (w\<lparr>debounceDue := d\<rparr>) = wf w"
  "wf (w\<lparr>saving := k\<rparr>) = wf w"
  "wf (w\<lparr>loaded := l\<rparr>) = wf w"
  by (simp_all add: wf_def)

lemma wf_no_timers: "wf w \<Longrightarrow> wf (w\<lparr>timers := []\<rparr>)"
  by (simp add: wf_def)

lemma wf_resetIdleTimer: "wf w \<Longrightarrow> wf (resetIdleTimer w)"
  by (simp add: resetIdleTimer_wf) (simp add: wf_def)

lemma wf_toggleAutoCenter: "wf w \<Longrightarrow> wf (toggleAutoCenter w)"
  by (simp add: toggleAutoCenter_def wf_resetIdleTimer)

lemma wf_onunload: "wf w \<Longrightarrow> wf (onunload w)"
  by (simp add: onunload_wf wf_no_timers)

lemma wf_sliderAssign: "wf w \<Longrightarrow> wf (sliderAssign v w)"
  by (simp add: sliderAssign_def)

lemma wf_sliderResume: "wf w \<Longrightarrow> wf (sliderResume w)"
  by (simp add: sliderResume_def wf_resetIdleTimer)

lemma wf_callDebounced: "wf w \<Longrightarrow> wf (callDebounced t r w)"
  by (simp add: callDebounced_def split: option.splits)

lemma wf_invoke: "wf w \<Longrightarrow> wf (invoke h w)"
  by (cases h) (simp_all add: wf_resetIdleTimer wf_callDebounced)

lemma wf_dispatch: "wf w \<Longrightarrow> wf (dispatch regs sig w)"
  by (induction regs sig w rule: dispatch.induct) (simp_all add: wf_invoke)

lemma wf_fire: "wf w \<Longrightarrow> wf (scrollActiveLineToCenter (windowClearTimeout h w))"
  using wf_timers[of w]
  by (auto simp: scrollActiveLineToCenter_def windowClearTimeout_def wf_def)

lemma wf_step: "wf w \<Longrightarrow> step regs e w = Some w' \<Longrightarrow> wf w'"
  by (cases e)
     (auto simp: wf_dispatch wf_toggleAutoCenter wf_sliderAssign wf_sliderResume wf_onunload
        wf_fire wf_resetIdleTimer split: if_splits option.splits)

lemma wf_run: "wf w \<Longrightarrow> run regs es w = Some w' \<Longrightarrow> wf w'"
  by (induction es arbitrary: w) (auto split: option.splits dest: wf_step)

lemma wf_newPlugin: "0 < n \<Longrightarrow> wf (newPlugin ms t n)"
  by (simp add: newPlugin_def wf_def)

lemma wf_onload: "wf w \<Longrightarrow> wf (onload w)"
  by (simp add: onload_def wf_resetIdleTimer)

lemmas world_defs = newPlugin_def onload_def resetIdleTimer_def windowSetTimeout_def
  windowClearTimeout_def scrollActiveLineToCenter_def toggleAutoCenter_def onunload_def
  sliderAssign_def sliderResume_def callDebounced_def registrations_def
  registrations_0_1_1_def DEBOUNCE_DELAY_MS_def effectiveDelay_def toInt32_def

subsection \<open>The delay of a timeout\<close>

lemma toInt32_small: "0 \<le> x \<Longrightarrow> x < 2147483648 \<Longrightarrow> toInt32 x = x"
  unfolding toInt32_def sint_sbintrunc'
  by (rule signed_take_bit_int_eq_self) simp_all

lemma effectiveDelay_small: "0 \<le> x \<Longrightarrow> x < 2147483648 \<Longrightarrow> effectiveDelay x = nat x"
  by (simp add: effectiveDelay_def toInt32_small)

lemma effectiveDelay_slider: "effectiveDelay 60000 = 60000"
  by (simp add: effectiveDelay_def toInt32_def)

lemma effectiveDelay_wraps:
  "effectiveDelay 2147483648 = 0 \<and> effectiveDelay 4294972296 = 5000"
  by (simp add: effectiveDelay_def toInt32_def)

text \<open>
  C1 (as amended). In every state the plugin can be in, \<^verbatim>\<open>resetIdleTimer()\<close> cancels the
  pending timeout and then, if and only if \<open>autoCenterEnabled\<close> holds and
  \<open>settings.idleTimeoutMs > 0\<close>, schedules exactly one new timeout, under a handle no
  pending timeout had; it is due after the delay the host makes of \<open>idleTimeoutMs\<close>, which
  is \<open>idleTimeoutMs\<close> itself whenever \<open>idleTimeoutMs < 2^31\<close> (so for every value the
  settings slider offers); when it fires at its due time the centering callback runs.
  Otherwise no timeout is left pending and \<open>idleTimeout\<close> is \<^verbatim>\<open>null\<close>; so with
  \<open>idleTimeoutMs = 0\<close> nothing is ever scheduled.
\<close>

theorem resetIdleTimer_schedules:
  assumes "wf w"
  shows "(autoCenterEnabled w \<and> 0 < idleTimeoutMs w \<longrightarrow>
            timers (resetIdleTimer w) =
              [(nextHandle w, now w + effectiveDelay (idleTimeoutMs w))]
          \<and> idleTimeout (resetIdleTimer w) = Some (nextHandle w)
          \<and> nextHandle w \<notin> fst ` set (timers w)
          \<and> map_option centered
               (run regs [Elapse (effectiveDelay (idleTimeoutMs w)), FireTimeout (nextHandle w)]
                  (resetIdleTimer w)) =
              Some (centered w @ [now w + effectiveDelay (idleTimeoutMs w)]))
       \<and> (autoCenterEnabled w \<and> 0 < idleTimeoutMs w \<and> idleTimeoutMs w < 2147483648 \<longrightarrow>
            timers (resetIdleTimer w) = [(nextHandle w, now w + nat (idleTimeoutMs w))]
          \<and> map_option centered
               (run regs [Elapse (nat (idleTimeoutMs w)), FireTimeout (nextHandle w)]
                  (resetIdleTimer w)) =
              Some (centered w @ [now w + nat (idleTimeoutMs w)]))
       \<and> (\<not> (autoCenterEnabled w \<and> 0 < idleTimeoutMs w) \<longrightarrow>
            timers (resetIdleTimer w) = [] \<and> idleTimeout (resetIdleTimer w) = None)
       \<and> (idleTimeoutMs w = 0 \<longrightarrow> timers (resetIdleTimer w) = [])
       \<and> autoCenterEnabled (resetIdleTimer w) = autoCenterEnabled w
       \<and> idleTimeoutMs (resetIdleTimer w) = idleTimeoutMs w
       \<and> centered (resetIdleTimer w) = centered w"
proof -
  have fresh: "nextHandle w \<notin> fst ` set (timers w)"
    using wf_timers[OF assms] by auto
  have small: "effectiveDelay (idleTimeoutMs w) = nat (idleTimeoutMs w)"
    if "0 < idleTimeoutMs w" "idleTimeoutMs w < 2147483648"
    using that by (simp add: effectiveDelay_small)
  have gen: "(autoCenterEnabled w \<and> 0 < idleTimeoutMs w \<longrightarrow>
            timers (resetIdleTimer w) =
              [(nextHandle w, now w + effectiveDelay (idleTimeoutMs w))]
          \<and> idleTimeout (resetIdleTimer w) = Some (nextHandle w)
          \<and> nextHandle w \<notin> fst ` set (timers w)
          \<and> map_option centered
               (run regs [Elapse (effectiveDelay (idleTimeoutMs w)), FireTimeout (nextHandle w)]
                  (resetIdleTimer w)) =
              Some (centered w @ [now w + effectiveDelay (idleTimeoutMs w)]))"
    using fresh
    by (simp add: resetIdleTimer_wf[OF assms] scrollActiveLineToCenter_def
          windowClearTimeout_def)
  have rest: "(\<not> (autoCenterEnabled w \<and> 0 < idleTimeoutMs w) \<longrightarrow>
            timers (resetIdleTimer w) = [] \<and> idleTimeout (resetIdleTimer w) = None)
       \<and> (idleTimeoutMs w = 0 \<longrightarrow> timers (resetIdleTimer w) = [])
       \<and> autoCenterEnabled (resetIdleTimer w) = autoCenterEnabled w
       \<and> idleTimeoutMs (resetIdleTimer w) = idleTimeoutMs w
       \<and> centered (resetIdleTimer w) = centered w"
    by (simp add: resetIdleTimer_wf[OF assms])
  have bounded: "autoCenterEnabled w \<and> 0 < idleTimeoutMs w \<and> idleTimeoutMs w < 2147483648 \<longrightarrow>
            timers (resetIdleTimer w) = [(nextHandle w, now w + nat (idleTimeoutMs w))]
          \<and> map_option centered
               (run regs [Elapse (nat (idleTimeoutMs w)), FireTimeout (nextHandle w)]
                  (resetIdleTimer w)) =
              Some (centered w @ [now w + nat (idleTimeoutMs w)])"
  proof
    assume a: "autoCenterEnabled w \<and> 0 < idleTimeoutMs w \<and> idleTimeoutMs w < 2147483648"
    then have e: "effectiveDelay (idleTimeoutMs w) = nat (idleTimeoutMs w)"
      using small by blast
    from gen a show "timers (resetIdleTimer w) = [(nextHandle w, now w + nat (idleTimeoutMs w))]
          \<and> map_option centered
               (run regs [Elapse (nat (idleTimeoutMs w)), FireTimeout (nextHandle w)]
                  (resetIdleTimer w)) =
              Some (centered w @ [now w + nat (idleTimeoutMs w)])"
      unfolding e by blast
  qed
  from gen bounded rest show ?thesis by blast
qed

theorem resetIdleTimer_schedules_witness:
  "timers (resetIdleTimer (onload (newPlugin 1000 0 1))) = [(2, 1000)]
   \<and> idleTimeout (resetIdleTimer (onload (newPlugin 1000 0 1))) = Some 2
   \<and> timers (onload (newPlugin 1000 0 1)) = [(1, 1000)]
   \<and> timers (resetIdleTimer (onload (newPlugin 0 0 1))) = []
   \<and> idleTimeout (resetIdleTimer (onload (newPlugin 0 0 1))) = None"
proof -
  let ?a = "\<lparr>idleTimeout = Some 1, autoCenterEnabled = True, idleTimeoutMs = 1000,
      now = 0, timers = [(1, 1000)], nextHandle = 2, centered = [],
      debounceDue = None, saving = 0, loaded = True\<rparr>"
  let ?b = "\<lparr>idleTimeout = None, autoCenterEnabled = True, idleTimeoutMs = 0,
      now = 0, timers = [], nextHandle = 1, centered = [],
      debounceDue = None, saving = 0, loaded = True\<rparr>"
  have a: "onload (newPlugin 1000 0 1) = ?a" by (simp add: world_defs)
  have b: "onload (newPlugin 0 0 1) = ?b" by (simp add: world_defs)
  have wa: "wf ?a" by (simp add: wf_def)
  have wb: "wf ?b" by (simp add: wf_def)
  have 1: "timers (resetIdleTimer ?a) = [(2, 1000)] \<and> idleTimeout (resetIdleTimer ?a) = Some 2"
    using resetIdleTimer_schedules[OF wa, of registrations]
    by (simp add: effectiveDelay_def toInt32_def)
  have 2: "timers (resetIdleTimer ?b) = [] \<and> idleTimeout (resetIdleTimer ?b) = None"
    using resetIdleTimer_schedules[OF wb, of registrations] by simp
  from 1 2 show ?thesis unfolding a b by simp
qed

text \<open>
  With \<open>idleTimeoutMs = 2^31\<close> (a value only a hand-edited settings file can hold) the
  timeout is not due \<open>idleTimeoutMs\<close> from now but at once: the centering callback can run
  without any time passing.
\<close>

theorem resetIdleTimer_delay_wraps_counterexample:
  "timers (resetIdleTimer (newPlugin 2147483648 0 1)) = [(1, 0)]
   \<and> map_option centered
        (run registrations [FireTimeout 1] (resetIdleTimer (newPlugin 2147483648 0 1))) =
      Some [0]"
  by (simp add: world_defs)

text \<open>
  C7. At most one idle timeout is pending at any time: a new plugin instance has none
  (\<open>idleTimeout = null\<close>); \<^verbatim>\<open>resetIdleTimer\<close>, the toggle command, both halves of a settings
  change and \<^verbatim>\<open>onunload\<close> keep the invariant, as does every step of the event loop; hence
  every state reached from \<^verbatim>\<open>onload\<close> has at most one pending timeout.
\<close>

theorem at_most_one_pending_timer:
  "(0 < n \<longrightarrow> wf (newPlugin ms t n) \<and> timers (newPlugin ms t n) = []
        \<and> idleTimeout (newPlugin ms t n) = None)
   \<and> (wf w \<longrightarrow> length (timers w) \<le> 1)
   \<and> (wf w \<longrightarrow> wf (resetIdleTimer w) \<and> wf (toggleAutoCenter w) \<and> wf (sliderAssign v w)
        \<and> wf (sliderResume w) \<and> wf (onunload w))
   \<and> (wf w \<and> step regs e w = Some w' \<longrightarrow> wf w')
   \<and> (0 < n \<and> run regs es (onload (newPlugin ms t n)) = Some w'' \<longrightarrow>
        length (timers w'') \<le> 1)"
proof (intro conjI impI)
  assume "0 < n"
  then show "wf (newPlugin ms t n)" by (rule wf_newPlugin)
next
  show "timers (newPlugin ms t n) = []" by (simp add: newPlugin_def)
next
  show "idleTimeout (newPlugin ms t n) = None" by (simp add: newPlugin_def)
next
  assume "wf w"
  then show "length (timers w) \<le> 1" by (rule wf_length)
next
  assume "wf w"
  then show "wf (resetIdleTimer w)" by (rule wf_resetIdleTimer)
next
  assume "wf w"
  then show "wf (toggleAutoCenter w)" by (rule wf_toggleAutoCenter)
next
  assume "wf w"
  then show "wf (sliderAssign v w)" by (rule wf_sliderAssign)
next
  assume "wf w"
  then show "wf (sliderResume w)" by (rule wf_sliderResume)
next
  assume "wf w"
  then show "wf (onunload w)" by (rule wf_onunload)
next
  assume "wf w \<and> step regs e w = Some w'"
  then show "wf w'" using wf_step by blast
next
  assume a: "0 < n \<and> run regs es (onload (newPlugin ms t n)) = Some w''"
  then have "wf (onload (newPlugin ms t n))" by (simp add: wf_onload wf_newPlugin)
  with a have "wf w''" using wf_run by blast
  then show "length (timers w'') \<le> 1" by (rule wf_length)
qed

theorem at_most_one_pending_timer_witness:
  "\<exists>w. run registrations
     [Activity EditorChange, Elapse 500, FireDebounced, ToggleAutoCenter, ToggleAutoCenter,
      SliderChange 1000, SaveDone]
     (onload (newPlugin 60000 0 1)) = Some w \<and> timers w = [(4, 1500)]
     \<and> length (timers w) \<le> 1"
proof -
  let ?es = "[Activity EditorChange, Elapse 500, FireDebounced, ToggleAutoCenter,
      ToggleAutoCenter, SliderChange 1000, SaveDone]"
  let ?w = "\<lparr>idleTimeout = Some 4, autoCenterEnabled = True, idleTimeoutMs = 1000,
         now = 500, timers = [(4, 1500)], nextHandle = 5, centered = [],
         debounceDue = None, saving = 0, loaded = True\<rparr>"
  have r: "run registrations ?es (onload (newPlugin 60000 0 1)) = Some ?w"
    by (simp add: world_defs)
  have "(0::nat) < 1" by simp
  with r have "0 < (1::nat) \<and> run registrations ?es (onload (newPlugin 60000 0 1)) = Some ?w"
    by (rule conjI[rotated])
  then have "length (timers ?w) \<le> 1"
    using at_most_one_pending_timer[where n = 1 and ms = 60000 and t = 0
        and regs = registrations and es = ?es and w'' = ?w]
    by blast
  moreover have "timers ?w = [(4, 1500)]" by simp
  ultimately show ?thesis using r by blast
qed

subsection \<open>The countdown\<close>

text \<open>
  While only time passes and due timeouts run, a state with one pending timeout and
  no firing yet either stays so, or the timeout has fired once, at or after its due
  time, and nothing is pending any more.
\<close>

lemma quiet_step_phase:
  assumes "quiet e" "step regs e w1 = Some w'"
    and "(timers w1 = [(h, D)] \<and> centered w1 = c0) \<or>
         (timers w1 = [] \<and> (\<exists>t. centered w1 = c0 @ [t] \<and> D \<le> t \<and> t \<le> now w1))"
  shows "(timers w' = [(h, D)] \<and> centered w' = c0) \<or>
         (timers w' = [] \<and> (\<exists>t. centered w' = c0 @ [t] \<and> D \<le> t \<and> t \<le> now w'))"
proof (cases e)
  case (Elapse d)
  with assms(2) have "w' = w1\<lparr>now := now w1 + d\<rparr>" by simp
  with assms(3) show ?thesis by auto
next
  case (FireTimeout k)
  from assms(3) show ?thesis
  proof
    assume p: "timers w1 = [(h, D)] \<and> centered w1 = c0"
    with assms(2) FireTimeout have "k = h" "D \<le> now w1"
      and "w' = scrollActiveLineToCenter (windowClearTimeout h w1)"
      by (auto split: if_splits)
    with p show ?thesis
      by (simp add: scrollActiveLineToCenter_def windowClearTimeout_def)
  next
    assume "timers w1 = [] \<and> (\<exists>t. centered w1 = c0 @ [t] \<and> D \<le> t \<and> t \<le> now w1)"
    with assms(2) FireTimeout show ?thesis by simp
  qed
qed (use assms(1) in simp_all)

lemma quiet_run_phase:
  assumes "list_all quiet es" "run regs es w1 = Some w'"
    and "(timers w1 = [(h, D)] \<and> centered w1 = c0) \<or>
         (timers w1 = [] \<and> (\<exists>t. centered w1 = c0 @ [t] \<and> D \<le> t \<and> t \<le> now w1))"
  shows "(timers w' = [(h, D)] \<and> centered w' = c0) \<or>
         (timers w' = [] \<and> (\<exists>t. centered w' = c0 @ [t] \<and> D \<le> t \<and> t \<le> now w'))"
  using assms
proof (induction es arbitrary: w1)
  case Nil
  then show ?case by simp
next
  case (Cons e es)
  from Cons.prems(2) obtain w2 where s: "step regs e w1 = Some w2" and r: "run regs es w2 = Some w'"
    by (auto split: option.splits)
  from Cons.prems(1) have q: "quiet e" "list_all quiet es" by simp_all
  from quiet_step_phase[OF q(1) s Cons.prems(3)] Cons.IH[OF q(2) r] show ?case by blast
qed

lemma quiet_run_no_timer:
  assumes "list_all quiet es" "run regs es w1 = Some w'" "timers w1 = []"
  shows "centered w' = centered w1 \<and> timers w' = []"
  using assms
proof (induction es arbitrary: w1)
  case Nil
  then show ?case by simp
next
  case (Cons e es)
  from Cons.prems(2) obtain w2 where s: "step regs e w1 = Some w2" and r: "run regs es w2 = Some w'"
    by (auto split: option.splits)
  from Cons.prems(1) have q: "quiet e" "list_all quiet es" by simp_all
  have "centered w2 = centered w1 \<and> timers w2 = []"
    using q(1) s Cons.prems(3) by (cases e) auto
  with Cons.IH[OF q(2) r] show ?case by simp
qed

lemma quiet_step_frame:
  assumes "quiet e" "step regs e w = Some w'"
  shows "autoCenterEnabled w' = autoCenterEnabled w \<and> idleTimeoutMs w' = idleTimeoutMs w \<and>
     now w' = now w + elapsed [e]"
  using assms
  by (cases e)
     (auto simp: scrollActiveLineToCenter_def windowClearTimeout_def
        split: option.splits if_splits)

lemma elapsed_Cons: "elapsed (e # es) = elapsed [e] + elapsed es"
  by (cases e) simp_all

lemma quiet_run_frame:
  assumes "list_all quiet es" "run regs es w = Some w'"
  shows "autoCenterEnabled w' = autoCenterEnabled w \<and> idleTimeoutMs w' = idleTimeoutMs w \<and>
     now w' = now w + elapsed es"
  using assms
proof (induction es arbitrary: w)
  case Nil
  then show ?case by simp
next
  case (Cons e es)
  from Cons.prems(2) obtain w2 where s: "step regs e w = Some w2"
    and r: "run regs es w2 = Some w'"
    by (auto split: option.splits)
  from Cons.prems(1) have q: "quiet e" "list_all quiet es" by simp_all
  from quiet_step_frame[OF q(1) s] Cons.IH[OF q(2) r] elapsed_Cons[of e es]
  show ?case by simp
qed

text \<open>
  One reset and the pause after it: the callback fires at most once, and only when
  the pause is as long as the timeout's delay.
\<close>

lemma reset_then_quiet:
  assumes "wf w" "autoCenterEnabled w" "0 < idleTimeoutMs w"
    and "list_all quiet es" "run regs es (resetIdleTimer w) = Some w'"
  shows "(centered w' = centered w \<and> timers w' = timers (resetIdleTimer w)) \<or>
         (\<exists>t. centered w' = centered w @ [t] \<and>
              now w + effectiveDelay (idleTimeoutMs w) \<le> t \<and> t \<le> now w' \<and> timers w' = [])"
proof -
  let ?D = "now w + effectiveDelay (idleTimeoutMs w)"
  have "timers (resetIdleTimer w) = [(nextHandle w, ?D)] \<and>
      centered (resetIdleTimer w) = centered w"
    using assms(1-3) by (simp add: resetIdleTimer_wf)
  then show ?thesis
    using quiet_run_phase[OF assms(4,5), of "nextHandle w" ?D "centered w"] by auto
qed

lemma reset_then_quiet_count:
  assumes "wf w" "autoCenterEnabled w" "0 < idleTimeoutMs w"
    and "list_all quiet es" "run regs es (resetIdleTimer w) = Some w'"
  shows "\<exists>fs. centered w' = centered w @ fs \<and>
     length fs \<le> (if effectiveDelay (idleTimeoutMs w) \<le> elapsed es then 1 else 0)"
proof -
  have n: "now w' = now w + elapsed es"
    using quiet_run_frame[OF assms(4,5)] assms(1) by (simp add: resetIdleTimer_wf)
  from reset_then_quiet[OF assms] show ?thesis
  proof
    assume "centered w' = centered w \<and> timers w' = timers (resetIdleTimer w)"
    then show ?thesis by simp
  next
    assume "\<exists>t. centered w' = centered w @ [t] \<and>
              now w + effectiveDelay (idleTimeoutMs w) \<le> t \<and> t \<le> now w' \<and> timers w' = []"
    then obtain t where t: "centered w' = centered w @ [t]"
      "now w + effectiveDelay (idleTimeoutMs w) \<le> t" "t \<le> now w'" by blast
    from t(2,3) n have "effectiveDelay (idleTimeoutMs w) \<le> elapsed es" by simp
    with t(1) show ?thesis by simp
  qed
qed

lemma reset_then_quiet_keeps:
  assumes "wf w" "list_all quiet es" "run regs es (resetIdleTimer w) = Some w'"
  shows "wf w' \<and> autoCenterEnabled w' = autoCenterEnabled w \<and>
     idleTimeoutMs w' = idleTimeoutMs w"
  using wf_run[OF wf_resetIdleTimer[OF assms(1)] assms(3)] quiet_run_frame[OF assms(2,3)]
    assms(1)
  by (simp add: resetIdleTimer_wf)

lemma resets_count:
  assumes "wf w" "autoCenterEnabled w" "0 < idleTimeoutMs w"
    and "list_all (list_all quiet) qss" "resets regs qss w = Some w'"
  shows "\<exists>fs. centered w' = centered w @ fs \<and>
     length fs \<le> length (filter (\<lambda>qs. effectiveDelay (idleTimeoutMs w) \<le> elapsed qs) qss)"
  using assms
proof (induction qss arbitrary: w)
  case Nil
  then show ?case by simp
next
  case (Cons qs qss)
  from Cons.prems(5) obtain w1 where r: "run regs qs (resetIdleTimer w) = Some w1"
    and rs: "resets regs qss w1 = Some w'"
    by (auto split: option.splits)
  from Cons.prems(4) have q: "list_all quiet qs" "list_all (list_all quiet) qss" by simp_all
  from reset_then_quiet_keeps[OF Cons.prems(1) q(1) r] Cons.prems(2,3)
  have k: "wf w1" "autoCenterEnabled w1" "0 < idleTimeoutMs w1"
    "idleTimeoutMs w1 = idleTimeoutMs w" by simp_all
  from reset_then_quiet_count[OF Cons.prems(1-3) q(1) r] obtain fs where
    fs: "centered w1 = centered w @ fs"
      "length fs \<le> (if effectiveDelay (idleTimeoutMs w) \<le> elapsed qs then 1 else 0)"
    by blast
  from Cons.IH[OF k(1-3) q(2) rs] obtain gs where
    gs: "centered w' = centered w1 @ gs"
      "length gs \<le> length (filter (\<lambda>qs. effectiveDelay (idleTimeoutMs w) \<le> elapsed qs) qss)"
    unfolding k(4) by blast
  have "centered w' = centered w @ (fs @ gs)" using fs(1) gs(1) by simp
  moreover have "length (fs @ gs) \<le>
      length (filter (\<lambda>qs. effectiveDelay (idleTimeoutMs w) \<le> elapsed qs) (qs # qss))"
    using fs(2) gs(2) by (simp split: if_splits)
  ultimately show ?case by blast
qed

text \<open>
  C2 (as amended). After a \<^verbatim>\<open>reset()\<close> with \<open>enabled = true\<close> and \<open>timeoutMs > 0\<close>, and as long
  as only time passes and due timeouts run (no further reset, toggle, settings change
  or unload), the centering callback fires at most once and not before the timeout's
  delay has passed since that reset; the delay is \<open>timeoutMs\<close> whenever \<open>timeoutMs < 2^31\<close>.
  At any time from the end of the delay on the callback can fire, and when no timeout
  is pending any more it has fired exactly once. This holds whatever timeout was
  pending before the reset: each \<^verbatim>\<open>reset()\<close> restarts the countdown (with
  \<open>timeoutMs = 1000\<close>, a second reset at 500 ms lets the callback fire at 1500 ms, not at
  1000 ms). Over a sequence of resets, each followed by such a pause, the callback
  fires at most as many times as there are pauses of at least the delay.
\<close>

theorem fires_once_after_last_reset:
  assumes "wf w" "autoCenterEnabled w" "0 < idleTimeoutMs w"
  shows "(list_all quiet es \<and> run regs es (resetIdleTimer w) = Some w' \<longrightarrow>
            (centered w' = centered w \<and> timers w' = timers (resetIdleTimer w)) \<or>
            (\<exists>t. centered w' = centered w @ [t] \<and>
                 now w + effectiveDelay (idleTimeoutMs w) \<le> t \<and>
                 t \<le> now w' \<and> timers w' = []))
       \<and> (list_all quiet es \<and> run regs es (resetIdleTimer w) = Some w' \<and>
            now w' < now w + effectiveDelay (idleTimeoutMs w) \<longrightarrow> centered w' = centered w)
       \<and> (list_all quiet es \<and> run regs es (resetIdleTimer w) = Some w' \<and> timers w' = [] \<longrightarrow>
            (\<exists>t. centered w' = centered w @ [t] \<and>
                 now w + effectiveDelay (idleTimeoutMs w) \<le> t \<and> t \<le> now w'))
       \<and> (effectiveDelay (idleTimeoutMs w) \<le> d \<longrightarrow>
            map_option centered
              (run regs [Elapse d, FireTimeout (nextHandle w)] (resetIdleTimer w)) =
            Some (centered w @ [now w + d])
          \<and> map_option timers
              (run regs [Elapse d, FireTimeout (nextHandle w)] (resetIdleTimer w)) = Some [])
       \<and> (idleTimeoutMs w < 2147483648 \<longrightarrow>
            effectiveDelay (idleTimeoutMs w) = nat (idleTimeoutMs w))
       \<and> (list_all (list_all quiet) qss \<and> resets regs qss w = Some w'' \<longrightarrow>
            (\<exists>fs. centered w'' = centered w @ fs \<and>
               length fs \<le>
                 length (filter (\<lambda>qs. effectiveDelay (idleTimeoutMs w) \<le> elapsed qs) qss)))"
proof -
  let ?D = "now w + effectiveDelay (idleTimeoutMs w)"
  have r: "resetIdleTimer w =
      w\<lparr>timers := [(nextHandle w, ?D)], nextHandle := nextHandle w + 1,
        idleTimeout := Some (nextHandle w)\<rparr>"
    using assms by (simp add: resetIdleTimer_wf)
  have main: "(centered w' = centered w \<and> timers w' = timers (resetIdleTimer w)) \<or>
            (\<exists>t. centered w' = centered w @ [t] \<and> ?D \<le> t \<and> t \<le> now w' \<and> timers w' = [])"
    if "list_all quiet es" "run regs es (resetIdleTimer w) = Some w'"
    using reset_then_quiet[OF assms that] .
  have early: "centered w' = centered w"
    if "list_all quiet es" "run regs es (resetIdleTimer w) = Some w'" "now w' < ?D"
    using main[OF that(1,2)] that(3) by auto
  have fired: "\<exists>t. centered w' = centered w @ [t] \<and> ?D \<le> t \<and> t \<le> now w'"
    if "list_all quiet es" "run regs es (resetIdleTimer w) = Some w'" "timers w' = []"
    using main[OF that(1,2)] that(3) by (auto simp: r)
  have fire: "run regs [Elapse d, FireTimeout (nextHandle w)] (resetIdleTimer w) =
      Some ((resetIdleTimer w)\<lparr>now := now w + d, timers := [],
              centered := centered w @ [now w + d]\<rparr>)"
    if "effectiveDelay (idleTimeoutMs w) \<le> d"
    using that by (simp add: r scrollActiveLineToCenter_def windowClearTimeout_def)
  have c: "map_option centered
            (run regs [Elapse d, FireTimeout (nextHandle w)] (resetIdleTimer w)) =
          Some (centered w @ [now w + d])"
    if "effectiveDelay (idleTimeoutMs w) \<le> d"
    unfolding fire[OF that] by simp
  have t: "map_option timers
            (run regs [Elapse d, FireTimeout (nextHandle w)] (resetIdleTimer w)) = Some []"
    if "effectiveDelay (idleTimeoutMs w) \<le> d"
    unfolding fire[OF that] by simp
  have small: "effectiveDelay (idleTimeoutMs w) = nat (idleTimeoutMs w)"
    if "idleTimeoutMs w < 2147483648"
    using that assms(3) by (simp add: effectiveDelay_small)
  have seq: "\<exists>fs. centered w'' = centered w @ fs \<and>
               length fs \<le>
                 length (filter (\<lambda>qs. effectiveDelay (idleTimeoutMs w) \<le> elapsed qs) qss)"
    if "list_all (list_all quiet) qss" "resets regs qss w = Some w''"
    using resets_count[OF assms that] .
  show ?thesis
  proof (intro conjI impI)
    assume "list_all quiet es \<and> run regs es (resetIdleTimer w) = Some w'"
    then show "(centered w' = centered w \<and> timers w' = timers (resetIdleTimer w)) \<or>
            (\<exists>t. centered w' = centered w @ [t] \<and> ?D \<le> t \<and> t \<le> now w' \<and> timers w' = [])"
      using main by blast
  next
    assume "list_all quiet es \<and> run regs es (resetIdleTimer w) = Some w' \<and> now w' < ?D"
    then show "centered w' = centered w" using early by blast
  next
    assume "list_all quiet es \<and> run regs es (resetIdleTimer w) = Some w' \<and> timers w' = []"
    then show "\<exists>t. centered w' = centered w @ [t] \<and> ?D \<le> t \<and> t \<le> now w'"
      using fired by blast
  next
    assume "effectiveDelay (idleTimeoutMs w) \<le> d"
    then show "map_option centered
            (run regs [Elapse d, FireTimeout (nextHandle w)] (resetIdleTimer w)) =
          Some (centered w @ [now w + d])" by (rule c)
  next
    assume "effectiveDelay (idleTimeoutMs w) \<le> d"
    then show "map_option timers
            (run regs [Elapse d, FireTimeout (nextHandle w)] (resetIdleTimer w)) = Some []"
      by (rule t)
  next
    assume "idleTimeoutMs w < 2147483648"
    then show "effectiveDelay (idleTimeoutMs w) = nat (idleTimeoutMs w)" by (rule small)
  next
    assume "list_all (list_all quiet) qss \<and> resets regs qss w = Some w''"
    then show "\<exists>fs. centered w'' = centered w @ fs \<and>
               length fs \<le>
                 length (filter (\<lambda>qs. effectiveDelay (idleTimeoutMs w) \<le> elapsed qs) qss)"
      using seq by blast
  qed
qed

theorem fires_once_after_last_reset_witness:
  "run registrations [Elapse 500, FireTimeout 2]
     (resetIdleTimer ((onload (newPlugin 1000 0 1))\<lparr>now := 500\<rparr>)) = None
   \<and> run registrations [Elapse 500, FireTimeout 1]
     (resetIdleTimer ((onload (newPlugin 1000 0 1))\<lparr>now := 500\<rparr>)) = None
   \<and> (\<exists>w'. run registrations [Elapse 1000, FireTimeout 2]
       (resetIdleTimer ((onload (newPlugin 1000 0 1))\<lparr>now := 500\<rparr>)) = Some w'
       \<and> centered w' = [1500] \<and> timers w' = [])
   \<and> timers ((onload (newPlugin 1000 0 1))\<lparr>now := 500\<rparr>) = [(1, 1000)]
   \<and> (\<exists>w'. resets registrations [[Elapse 500], [Elapse 1000, FireTimeout 2]]
         (newPlugin 1000 0 1) = Some w' \<and> centered w' = [1500])"
proof -
  let ?w = "\<lparr>idleTimeout = Some 1, autoCenterEnabled = True, idleTimeoutMs = 1000,
      now = 500, timers = [(1, 1000)], nextHandle = 2, centered = [],
      debounceDue = None, saving = 0, loaded = True\<rparr>"
  let ?w' = "\<lparr>idleTimeout = Some 2, autoCenterEnabled = True, idleTimeoutMs = 1000,
      now = 1500, timers = [], nextHandle = 3, centered = [1500],
      debounceDue = None, saving = 0, loaded = True\<rparr>"
  let ?n = "\<lparr>idleTimeout = None, autoCenterEnabled = True, idleTimeoutMs = 1000,
      now = 0, timers = [], nextHandle = 1, centered = [],
      debounceDue = None, saving = 0, loaded = False\<rparr>"
  let ?n' = "\<lparr>idleTimeout = Some 2, autoCenterEnabled = True, idleTimeoutMs = 1000,
      now = 1500, timers = [], nextHandle = 3, centered = [1500],
      debounceDue = None, saving = 0, loaded = False\<rparr>"
  let ?qss = "[[Elapse 500], [Elapse 1000, FireTimeout 2]]"
  have w: "(onload (newPlugin 1000 0 1))\<lparr>now := 500\<rparr> = ?w" by (simp add: world_defs)
  have n: "newPlugin 1000 0 1 = ?n" by (simp add: newPlugin_def)
  have wf: "wf ?w" by (simp add: wf_def)
  have wfn: "wf ?n" by (simp add: wf_def)
  have early: "run registrations [Elapse 500, FireTimeout 2] (resetIdleTimer ?w) = None"
    "run registrations [Elapse 500, FireTimeout 1] (resetIdleTimer ?w) = None"
    by (simp_all add: world_defs)
  have late: "run registrations [Elapse 1000, FireTimeout 2] (resetIdleTimer ?w) = Some ?w'"
    by (simp add: world_defs)
  have q: "list_all quiet [Elapse 1000, FireTimeout 2]" by simp
  have e: "autoCenterEnabled ?w" "0 < idleTimeoutMs ?w" by simp_all
  note T = fires_once_after_last_reset[OF wf e,
      of "[Elapse 1000, FireTimeout 2]" registrations ?w' 1000]
  have tl: "timers ?w' = []" by simp
  from T q late tl
  have "\<exists>t. centered ?w' = centered ?w @ [t] \<and>
      now ?w + effectiveDelay (idleTimeoutMs ?w) \<le> t \<and> t \<le> now ?w'"
    by blast
  then have 1: "centered ?w' = [1500] \<and> timers ?w' = []" by simp
  have rs: "resets registrations ?qss ?n = Some ?n'" by (simp add: world_defs)
  have qq: "list_all (list_all quiet) ?qss" by simp
  have en: "autoCenterEnabled ?n" "0 < idleTimeoutMs ?n" by simp_all
  note S = fires_once_after_last_reset[OF wfn en, of _ registrations _ _ ?qss ?n']
  from S qq rs
  have "\<exists>fs. centered ?n' = centered ?n @ fs \<and>
      length fs \<le> length (filter (\<lambda>qs. effectiveDelay (idleTimeoutMs ?n) \<le> elapsed qs) ?qss)"
    by blast
  then have 2: "centered ?n' = [1500]" by simp
  have A: "\<exists>w'. run registrations [Elapse 1000, FireTimeout 2] (resetIdleTimer ?w) = Some w'
       \<and> centered w' = [1500] \<and> timers w' = []"
    using late 1 by blast
  have B: "timers ?w = [(1, 1000)]" by simp
  have C: "\<exists>w'. resets registrations ?qss (newPlugin 1000 0 1) = Some w' \<and>
      centered w' = [1500]"
    unfolding n using rs 2 by blast
  show ?thesis unfolding w by (intro conjI early A B C)
qed

text \<open>
  Two resets with \<open>enabled = true\<close> and \<open>timeoutMs = 1000\<close>, at 0 ms and at 2000 ms: the
  callback fires twice, at 1000 ms (before the last reset) and at 3000 ms. And with
  \<open>timeoutMs = 2^31\<close> the callback fires at 0 ms, before \<open>timeoutMs\<close> have passed.
\<close>

theorem fires_twice_counterexample:
  "map_option centered
     (resets registrations
        [[Elapse 1000, FireTimeout 1, Elapse 1000], [Elapse 1000, FireTimeout 2]]
        (newPlugin 1000 0 1)) = Some [1000, 3000]
   \<and> map_option centered
       (resets registrations [[FireTimeout 1]] (newPlugin 2147483648 0 1)) = Some [0]"
  by (simp add: world_defs)

subsection \<open>Disabling and unloading\<close>

text \<open>
  Turning auto-centering off cancels the pending timeout, \<^verbatim>\<open>onunload\<close> cancels it, a
  reset while disabled or with a timeout of zero leaves none, and with no timeout
  pending the callback does not fire as long as no plugin code runs.
\<close>

lemma toggle_off_cancels:
  assumes "wf w" "autoCenterEnabled w"
  shows "timers (toggleAutoCenter w) = [] \<and> idleTimeout (toggleAutoCenter w) = None"
  using assms by (simp add: toggleAutoCenter_def resetIdleTimer_wf)

lemma onunload_cancels: "wf w \<Longrightarrow> timers (onunload w) = []"
  by (simp add: onunload_wf)

lemma disabled_reset_no_timer:
  assumes "wf w" "\<not> autoCenterEnabled w \<or> idleTimeoutMs w \<le> 0"
  shows "timers (resetIdleTimer w) = []"
  using assms by (auto simp: resetIdleTimer_wf)

text \<open>
  C3. The callback is required never to fire after the plugin was unloaded. In this
  run it does: the document is edited at 0 ms (the debounced \<^verbatim>\<open>resetIdleTimer\<close> is armed
  for 500 ms), the plugin is unloaded at 100 ms (\<^verbatim>\<open>onunload\<close> cancels the idle timeout),
  at 500 ms the debounced \<^verbatim>\<open>resetIdleTimer\<close> runs and schedules a new timeout, and at
  60500 ms \<^verbatim>\<open>scrollActiveLineToCenter\<close> runs in the unloaded plugin.
\<close>

theorem fires_after_unload:
  "map_option (\<lambda>w. (loaded w, centered w))
     (run registrations
        [Activity EditorChange, Elapse 100, Unload, Elapse 400, FireDebounced,
         Elapse 60000, FireTimeout 2]
        (onload (newPlugin 60000 0 1))) = Some (False, [60500])"
  by (simp add: world_defs)

text \<open>
  Likewise the callback can fire while the setting is already zero: the slider's
  handler has assigned 0 and is waiting for \<^verbatim>\<open>saveSettings()\<close> when the timeout comes due.
\<close>

lemma fires_while_zero:
  "map_option (\<lambda>w. (idleTimeoutMs w, centered w))
     (run registrations [Elapse 60000, SliderChange 0, FireTimeout 1]
        (onload (newPlugin 60000 0 1))) = Some (0, [60000])"
  by (simp add: world_defs)

subsection \<open>Which notifications reset the timer\<close>

lemma dispatch_current_other:
  "sig \<noteq> EditorChange \<Longrightarrow> dispatch registrations sig w = w"
  by (simp add: registrations_def)

lemma dispatch_current_edit:
  "dispatch registrations EditorChange w = w\<lparr>debounceDue := Some (now w + 500)\<rparr>"
  by (simp add: registrations_def callDebounced_def DEBOUNCE_DELAY_MS_def split: option.splits)

lemma dispatch_0_1_1_direct:
  "sig \<noteq> MouseMove \<Longrightarrow> dispatch registrations_0_1_1 sig w = resetIdleTimer w"
  by (cases sig) (simp_all add: registrations_0_1_1_def)

lemma dispatch_0_1_1_move:
  "dispatch registrations_0_1_1 MouseMove w = w\<lparr>debounceDue := Some (now w + 500)\<rparr>"
  by (simp add: registrations_0_1_1_def callDebounced_def DEBOUNCE_DELAY_MS_def
        split: option.splits)

lemma resetIdleTimer_0_1_1_eq:
  "idleTimeoutMs w = 10000 \<Longrightarrow> resetIdleTimer_0_1_1 w = resetIdleTimer w"
  by (simp add: resetIdleTimer_0_1_1_def resetIdleTimer_def Let_def windowClearTimeout_def
        split: option.splits)

text \<open>
  Two runs of the debounced \<^verbatim>\<open>resetIdleTimer\<close> are at least \<^verbatim>\<open>DEBOUNCE_DELAY_MS\<close> apart.
\<close>

lemma armedAfter_reset [simp]: "armedAfter T (resetIdleTimer w) = armedAfter T w"
  by (simp add: armedAfter_def resetIdleTimer_def Let_def windowClearTimeout_def
        windowSetTimeout_def split: option.splits)

lemma armedAfter_dispatch:
  assumes "regs = registrations \<or> regs = registrations_0_1_1" "armedAfter T w"
  shows "armedAfter T (dispatch regs sig w)"
proof -
  have "armedAfter T (w\<lparr>debounceDue := Some (now w + 500)\<rparr>)"
    using assms(2) by (simp add: armedAfter_def DEBOUNCE_DELAY_MS_def)
  then show ?thesis
    using assms
    by (cases "sig = EditorChange"; cases "sig = MouseMove")
       (auto simp: dispatch_current_other dispatch_current_edit dispatch_0_1_1_direct
          dispatch_0_1_1_move)
qed

lemma armedAfter_upd [simp]:
  "armedAfter T (w\<lparr>autoCenterEnabled := b\<rparr>) = armedAfter T w"
  "armedAfter T (w\<lparr>idleTimeoutMs := v\<rparr>) = armedAfter T w"
  "armedAfter T (w\<lparr>saving := k\<rparr>) = armedAfter T w"
  "armedAfter T (w\<lparr>loaded := l\<rparr>) = armedAfter T w"
  "armedAfter T (w\<lparr>timers := ts\<rparr>) = armedAfter T w"
  "armedAfter T (w\<lparr>centered := cs\<rparr>) = armedAfter T w"
  by (simp_all add: armedAfter_def)

lemma armedAfter_step:
  assumes "regs = registrations \<or> regs = registrations_0_1_1" "armedAfter T w"
    "step regs e w = Some w'"
  shows "armedAfter T w'"
proof (cases e)
  case (Activity sig)
  with assms(2,3) show ?thesis using armedAfter_dispatch[OF assms(1,2)] by (auto split: if_splits)
next
  case ToggleAutoCenter
  with assms(2,3) show ?thesis
    by (auto simp: toggleAutoCenter_def split: if_splits)
next
  case (SliderChange v)
  with assms(2,3) show ?thesis by (auto simp: sliderAssign_def split: if_splits)
next
  case SaveDone
  with assms(2,3) show ?thesis by (auto simp: sliderResume_def split: if_splits)
next
  case Unload
  with assms(2,3) show ?thesis
    by (auto simp: onunload_def windowClearTimeout_def split: if_splits option.splits)
next
  case (Elapse d)
  with assms(2,3) show ?thesis by (auto simp: armedAfter_def split: option.splits)
next
  case (FireTimeout h)
  with assms(2,3) show ?thesis
    by (auto simp: scrollActiveLineToCenter_def windowClearTimeout_def
          split: if_splits option.splits)
next
  case FireDebounced
  with assms(2,3) have "w' = resetIdleTimer (w\<lparr>debounceDue := None\<rparr>)"
    by (auto split: if_splits option.splits)
  moreover have "armedAfter T (w\<lparr>debounceDue := None\<rparr>)"
    using assms(2) by (simp add: armedAfter_def)
  ultimately show ?thesis by simp
qed

lemma armedAfter_run:
  assumes "regs = registrations \<or> regs = registrations_0_1_1" "armedAfter T w"
    "run regs es w = Some w'"
  shows "armedAfter T w'"
  using assms(2,3)
proof (induction es arbitrary: w)
  case Nil
  then show ?case by simp
next
  case (Cons e es)
  from Cons.prems(2) obtain w2 where s: "step regs e w = Some w2"
    and r: "run regs es w2 = Some w'"
    by (auto split: option.splits)
  from armedAfter_step[OF assms(1) Cons.prems(1) s] have "armedAfter T w2" .
  then show ?case using r by (rule Cons.IH)
qed

lemma run_append:
  "run regs (es @ fs) w = (case run regs es w of None \<Rightarrow> None | Some w1 \<Rightarrow> run regs fs w1)"
  by (induction es arbitrary: w) (auto split: option.splits)

lemma debounced_resets_apart:
  assumes "regs = registrations \<or> regs = registrations_0_1_1"
    and "debounceDue w = None"
    and "run regs (es @ [FireDebounced]) w = Some w'"
  shows "now w + 500 \<le> now w'"
proof -
  from assms(3) obtain w1 where r: "run regs es w = Some w1"
    and s: "step regs FireDebounced w1 = Some w'"
    by (auto simp: run_append split: option.splits)
  have "armedAfter (now w) w" using assms(2) by (simp add: armedAfter_def)
  then have a: "armedAfter (now w) w1" using armedAfter_run[OF assms(1) _ r] by simp
  from s obtain due where d: "debounceDue w1 = Some due" "due \<le> now w1"
    and w': "w' = resetIdleTimer (w1\<lparr>debounceDue := None\<rparr>)"
    by (auto split: option.splits if_splits)
  from a d have "now w + 500 \<le> now w1" by (simp add: armedAfter_def DEBOUNCE_DELAY_MS_def)
  moreover have "now w' = now w1"
    unfolding w'
    by (simp add: resetIdleTimer_def Let_def windowClearTimeout_def windowSetTimeout_def
          split: option.splits)
  ultimately show ?thesis by simp
qed

text \<open>
  C8 (as amended). In the current version (0.1.2) only document changes
  (\<^verbatim>\<open>editor-change\<close>) are subscribed, and through \<^verbatim>\<open>debounce(resetIdleTimer, 500, true)\<close>: the
  notification itself resets nothing, \<^verbatim>\<open>reset()\<close> runs once the debounce delay has expired,
  and two such runs are at least 500 ms apart; focus changes, key presses, pointer
  presses and pointer moves leave the plugin's state as it is. In version 0.1.1 edits,
  focus changes, key presses and pointer presses each invoke \<^verbatim>\<open>reset()\<close> at once, and
  pointer moves, and only they, are coalesced in the same way; that version's
  \<^verbatim>\<open>reset()\<close> is the current one at a timeout of 10000 ms.
\<close>

theorem activity_wiring:
  "(sig \<noteq> EditorChange \<longrightarrow> step registrations (Activity sig) w = Some w)
   \<and> (loaded w \<longrightarrow> step registrations (Activity EditorChange) w =
         Some (w\<lparr>debounceDue := Some (now w + 500)\<rparr>))
   \<and> (debounceDue w = Some due \<and> due \<le> now w \<longrightarrow>
         step registrations FireDebounced w = Some (resetIdleTimer (w\<lparr>debounceDue := None\<rparr>)))
   \<and> (debounceDue w = None \<and> run registrations (es @ [FireDebounced]) w = Some w' \<longrightarrow>
         now w + 500 \<le> now w')
   \<and> (loaded w \<and> sig \<noteq> MouseMove \<longrightarrow>
         step registrations_0_1_1 (Activity sig) w = Some (resetIdleTimer w))
   \<and> (loaded w \<longrightarrow> step registrations_0_1_1 (Activity MouseMove) w =
         Some (w\<lparr>debounceDue := Some (now w + 500)\<rparr>))
   \<and> (debounceDue w = None \<and> run registrations_0_1_1 (es @ [FireDebounced]) w = Some w' \<longrightarrow>
         now w + 500 \<le> now w')
   \<and> (idleTimeoutMs w = 10000 \<longrightarrow> resetIdleTimer_0_1_1 w = resetIdleTimer w)"
proof (intro conjI impI)
  assume "sig \<noteq> EditorChange"
  then show "step registrations (Activity sig) w = Some w"
    by (simp add: dispatch_current_other)
next
  assume "loaded w"
  then show "step registrations (Activity EditorChange) w =
      Some (w\<lparr>debounceDue := Some (now w + 500)\<rparr>)"
    by (simp add: dispatch_current_edit)
next
  assume "debounceDue w = Some due \<and> due \<le> now w"
  then show "step registrations FireDebounced w =
      Some (resetIdleTimer (w\<lparr>debounceDue := None\<rparr>))"
    by simp
next
  assume "debounceDue w = None \<and> run registrations (es @ [FireDebounced]) w = Some w'"
  then show "now w + 500 \<le> now w'"
    using debounced_resets_apart[of registrations w es w'] by simp
next
  assume "loaded w \<and> sig \<noteq> MouseMove"
  then show "step registrations_0_1_1 (Activity sig) w = Some (resetIdleTimer w)"
    by (simp add: dispatch_0_1_1_direct)
next
  assume "loaded w"
  then show "step registrations_0_1_1 (Activity MouseMove) w =
      Some (w\<lparr>debounceDue := Some (now w + 500)\<rparr>)"
    by (simp add: dispatch_0_1_1_move)
next
  assume "debounceDue w = None \<and> run registrations_0_1_1 (es @ [FireDebounced]) w = Some w'"
  then show "now w + 500 \<le> now w'"
    using debounced_resets_apart[of registrations_0_1_1 w es w'] by simp
next
  assume "idleTimeoutMs w = 10000"
  then show "resetIdleTimer_0_1_1 w = resetIdleTimer w"
    by (rule resetIdleTimer_0_1_1_eq)
qed

theorem activity_wiring_witness:
  "step registrations (Activity KeyDown) (onload (newPlugin 10000 0 1)) =
     Some (onload (newPlugin 10000 0 1))
   \<and> step registrations (Activity EditorChange) (onload (newPlugin 10000 0 1)) =
     Some ((onload (newPlugin 10000 0 1))\<lparr>debounceDue := Some 500\<rparr>)
   \<and> step registrations_0_1_1 (Activity KeyDown) (onload (newPlugin 10000 0 1)) =
     Some (resetIdleTimer (onload (newPlugin 10000 0 1)))
   \<and> (\<exists>w'. run registrations
        ([Activity EditorChange, Elapse 200, Activity EditorChange, Elapse 500] @
         [FireDebounced]) (onload (newPlugin 10000 0 1)) = Some w'
       \<and> now w' = 700 \<and> timers w' = [(2, 10700)]
       \<and> now (onload (newPlugin 10000 0 1)) + 500 \<le> now w')"
proof -
  let ?w = "\<lparr>idleTimeout = Some 1, autoCenterEnabled = True, idleTimeoutMs = 10000,
      now = 0, timers = [(1, 10000)], nextHandle = 2, centered = [],
      debounceDue = None, saving = 0, loaded = True\<rparr>"
  let ?w' = "\<lparr>idleTimeout = Some 2, autoCenterEnabled = True, idleTimeoutMs = 10000,
      now = 700, timers = [(2, 10700)], nextHandle = 3, centered = [],
      debounceDue = None, saving = 0, loaded = True\<rparr>"
  let ?es = "[Activity EditorChange, Elapse 200, Activity EditorChange, Elapse 500]"
  have w: "onload (newPlugin 10000 0 1) = ?w" by (simp add: world_defs)
  have r: "run registrations (?es @ [FireDebounced]) ?w = Some ?w'"
    by (simp add: world_defs)
  have k: "KeyDown \<noteq> EditorChange" "KeyDown \<noteq> MouseMove" by simp_all
  note T = activity_wiring[of KeyDown ?w _ ?es ?w']
  have 1: "step registrations (Activity KeyDown) ?w = Some ?w" using T k by blast
  have l: "loaded ?w" by simp
  have 2: "step registrations (Activity EditorChange) ?w =
      Some (?w\<lparr>debounceDue := Some (now ?w + 500)\<rparr>)" using T l by blast
  have 3: "step registrations_0_1_1 (Activity KeyDown) ?w = Some (resetIdleTimer ?w)"
    using T l k by blast
  have d: "debounceDue ?w = None" by simp
  have 4: "now ?w + 500 \<le> now ?w'" using T d r by blast
  have "\<exists>w'. run registrations (?es @ [FireDebounced]) ?w = Some w'
       \<and> now w' = 700 \<and> timers w' = [(2, 10700)] \<and> now ?w + 500 \<le> now w'"
    using r 4 by (intro exI[of _ ?w']) simp
  with 1 2 3 show ?thesis unfolding w by simp
qed

text \<open>
  With a timeout of 10000 ms, a key press at 5000 ms does not restart the countdown in
  the current version: the callback fires at 10000 ms. With the subscriptions of
  version 0.1.1 the key press cancels that timeout, so it cannot fire then.
\<close>

theorem key_press_does_not_reset_counterexample:
  "map_option centered
     (run registrations [Elapse 5000, Activity KeyDown, Elapse 5000, FireTimeout 1]
        (onload (newPlugin 10000 0 1))) = Some [10000]
   \<and> run registrations_0_1_1 [Elapse 5000, Activity KeyDown, Elapse 5000, FireTimeout 1]
        (onload (newPlugin 10000 0 1)) = None"
  by (simp add: world_defs)

section \<open>Properties of the settings\<close>

text \<open>
  C9. When nothing was persisted the settings are the defaults; when an object was
  persisted, every field it has overrides the default and every field it lacks takes
  its default value: a missing \<open>idleTimeoutMs\<close> becomes 60000.
\<close>

theorem loadSettings_defaults:
  "loadSettings None = DEFAULT_SETTINGS
   \<and> loadSettings (Some d) k = (case d k of Some v \<Rightarrow> Some v | None \<Rightarrow> DEFAULT_SETTINGS k)
   \<and> DEFAULT_SETTINGS ''idleTimeoutMs'' = Some (JNum 60000)
   \<and> (d ''idleTimeoutMs'' = None \<longrightarrow>
        loadSettings (Some d) ''idleTimeoutMs'' = Some (JNum 60000))
   \<and> (d k = Some v \<longrightarrow> loadSettings (Some d) k = Some v)
   \<and> dom (loadSettings (Some d)) = dom d \<union> {''idleTimeoutMs''}"
  by (auto simp: loadSettings_def objectAssign_def DEFAULT_SETTINGS_def map_add_def
        split: option.splits)

theorem loadSettings_defaults_witness:
  "loadSettings (Some Map.empty) ''idleTimeoutMs'' = Some (JNum 60000)
   \<and> loadSettings (Some [''other'' \<mapsto> JBool True]) ''idleTimeoutMs'' = Some (JNum 60000)
   \<and> loadSettings (Some [''idleTimeoutMs'' \<mapsto> JNum 5000]) ''idleTimeoutMs'' = Some (JNum 5000)
   \<and> loadSettings None ''idleTimeoutMs'' = Some (JNum 60000)"
proof -
  have 1: "loadSettings (Some Map.empty) ''idleTimeoutMs'' = Some (JNum 60000)"
    using loadSettings_defaults[of Map.empty "''idleTimeoutMs''"] by simp
  have 2: "loadSettings (Some [''other'' \<mapsto> JBool True]) ''idleTimeoutMs'' = Some (JNum 60000)"
    using loadSettings_defaults[of "[''other'' \<mapsto> JBool True]" "''idleTimeoutMs''"] by simp
  have 3: "loadSettings (Some [''idleTimeoutMs'' \<mapsto> JNum 5000]) ''idleTimeoutMs'' =
      Some (JNum 5000)"
    using loadSettings_defaults[of "[''idleTimeoutMs'' \<mapsto> JNum 5000]" "''idleTimeoutMs''"
        "JNum 5000"] by simp
  have 4: "loadSettings None ''idleTimeoutMs'' = Some (JNum 60000)"
    using loadSettings_defaults[of Map.empty "''idleTimeoutMs''"] by simp
  from 1 2 3 4 show ?thesis by simp
qed

end
